theory Spec2Isabelle
  imports Main "HOL-Library.Word" "HOL-Library.Sublist"
begin

section \<open>The operating system as the rolling writer sees it\<close>

text \<open>
  The writer of \<^verbatim>\<open>writer.rolling.go\<close> does nothing but call the operating system, so the
  model is explicit state passing over a \<open>world\<close>: the named files with their contents, a
  script of the faults the environment is going to inject into the coming system calls, a
  clock, and a trace of everything that was called. The trace is ghost state: the Go code
  does not read it; "exactly one rotation" and "no file mutation" are statements about it.
\<close>

type_synonym path = string

text \<open>The Go \<^verbatim>\<open>error\<close> values that can come back from a system call.\<close>

datatype error = ErrNotExist | ErrInvalid | ErrClosed | ErrIO

text \<open>A Go panic: \<^verbatim>\<open>panic(err)\<close>, or the runtime's index-out-of-range panic.\<close>

datatype panic = PanicError error | PanicIndex

text \<open>
  What the environment may do to one system call: make it fail with an I/O error and no
  effect (\<open>Fault\<close>), or, for a write, fail after some bytes have gone to the file
  (\<open>ShortWrite n\<close>; \<^verbatim>\<open>os.File.Write\<close> returns the number of bytes written together with
  the error). The script holds one entry for each coming system call; \<open>None\<close>, or a script
  that has run out, lets the call go through. A call other than a write takes a short write
  as a plain fault.
\<close>

datatype fault = Fault | ShortWrite nat

text \<open>
  A \<^verbatim>\<open>*os.File\<close>: the nil pointer, or a handle on the file that was opened at a path,
  with the flag that tells whether it is still open. The writer is the only owner of its
  handle, so the flag lives in the value. (The field is \<open>fileHandle\<close> here, the spec's name
  for it: \<open>file\<close> is a keyword of Isabelle.)
\<close>

datatype osFile = NilFile | File path bool

text \<open>
  The trace: \<open>rotate\<close> and \<open>deleteOld\<close>, the two methods whose invocations are counted,
  record that they were entered; every system call records what it was called with and what
  it returned.
\<close>

datatype event =
    CallRotate
  | CallDeleteOld
  | OsStat path "error option"
  | OsOpen path "error option"
  | OsClose "error option"
  | OsRename path path "error option"
  | OsWrite string nat "error option"
  | OsRemove path "error option"
  | OsWalk path "error option"
  | Println string error

record world =
  files :: "(path \<times> string) list"
  script :: "fault option list"
  clock :: "nat \<Rightarrow> string"
  ticks :: nat
  trace :: "event list"

definition emit :: "event \<Rightarrow> world \<Rightarrow> world" where
  "emit e w = w\<lparr>trace := trace w @ [e]\<rparr>"

definition nextFault :: "world \<Rightarrow> fault option \<times> world" where
  "nextFault w = (case script w of [] \<Rightarrow> (None, w) | f # fs \<Rightarrow> (f, w\<lparr>script := fs\<rparr>))"

definition fileSize :: "world \<Rightarrow> path \<Rightarrow> nat option" where
  "fileSize w p = map_option length (map_of (files w) p)"

definition unlink :: "path \<Rightarrow> (path \<times> string) list \<Rightarrow> (path \<times> string) list" where
  "unlink p fs = filter (\<lambda>entry. fst entry \<noteq> p) fs"

definition appendTo :: "path \<Rightarrow> string \<Rightarrow> (path \<times> string) list \<Rightarrow> (path \<times> string) list" where
  "appendTo p s fs = map (\<lambda>entry. if fst entry = p then (fst entry, snd entry @ s) else entry) fs"

text \<open>\<^verbatim>\<open>os.Stat(name)\<close>, of which the writer reads only \<^verbatim>\<open>info.Size()\<close>, an int64.\<close>

definition osStat :: "path \<Rightarrow> world \<Rightarrow> (error + 64 word) \<times> world" where
  "osStat p w0 =
     (case nextFault w0 of
        (Some f, w) \<Rightarrow> (Inl ErrIO, emit (OsStat p (Some ErrIO)) w)
      | (None, w) \<Rightarrow>
          (case map_of (files w) p of
             None \<Rightarrow> (Inl ErrNotExist, emit (OsStat p (Some ErrNotExist)) w)
           | Some c \<Rightarrow> (Inr (of_nat (length c)), emit (OsStat p None) w)))"

text \<open>
  Modelled from the spec: \<^verbatim>\<open>openFile\<close> is a helper of the package that is not in
  \<^verbatim>\<open>writer.rolling.go\<close>. The spec has it "open it for appending" when the file exists and
  "create a new live file" when it does not; on an error the handle that comes back is nil,
  as with \<^verbatim>\<open>os.OpenFile\<close>.
\<close>

definition openFile :: "path \<Rightarrow> world \<Rightarrow> osFile \<times> error option \<times> world" where
  "openFile p w0 =
     (case nextFault w0 of
        (Some f, w) \<Rightarrow> (NilFile, Some ErrIO, emit (OsOpen p (Some ErrIO)) w)
      | (None, w) \<Rightarrow>
          (case map_of (files w) p of
             None \<Rightarrow> (File p True, None, emit (OsOpen p None) (w\<lparr>files := files w @ [(p, [])]\<rparr>))
           | Some c \<Rightarrow> (File p True, None, emit (OsOpen p None) w)))"

text \<open>
  \<^verbatim>\<open>f.Close()\<close>: \<^verbatim>\<open>ErrInvalid\<close> on the nil handle, \<^verbatim>\<open>ErrClosed\<close> on a closed one (no
  system call is made in either case); otherwise the descriptor is released, also when the
  call reports an error.
\<close>

definition osClose :: "osFile \<Rightarrow> world \<Rightarrow> error option \<times> osFile \<times> world" where
  "osClose f w =
     (case f of
        NilFile \<Rightarrow> (Some ErrInvalid, f, emit (OsClose (Some ErrInvalid)) w)
      | File p False \<Rightarrow> (Some ErrClosed, f, emit (OsClose (Some ErrClosed)) w)
      | File p True \<Rightarrow>
          (case nextFault w of
             (Some flt, w1) \<Rightarrow> (Some ErrIO, File p False, emit (OsClose (Some ErrIO)) w1)
           | (None, w1) \<Rightarrow> (None, File p False, emit (OsClose None) w1)))"

text \<open>\<^verbatim>\<open>os.Rename(old, new)\<close>: the entry moves, replacing whatever was at the new path.\<close>

definition osRename :: "path \<Rightarrow> path \<Rightarrow> world \<Rightarrow> error option \<times> world" where
  "osRename old new w0 =
     (case nextFault w0 of
        (Some f, w) \<Rightarrow> (Some ErrIO, emit (OsRename old new (Some ErrIO)) w)
      | (None, w) \<Rightarrow>
          (case map_of (files w) old of
             None \<Rightarrow> (Some ErrNotExist, emit (OsRename old new (Some ErrNotExist)) w)
           | Some c \<Rightarrow>
               (None, emit (OsRename old new None)
                        (w\<lparr>files := unlink new (unlink old (files w)) @ [(new, c)]\<rparr>))))"

text \<open>
  \<^verbatim>\<open>f.WriteString(s)\<close> on a file opened for appending: the count of bytes written and
  the error. A handle whose file has since been unlinked still takes the bytes, which then
  show under no name.
\<close>

definition osWriteString :: "osFile \<Rightarrow> string \<Rightarrow> world \<Rightarrow> nat \<times> error option \<times> world" where
  "osWriteString f s w =
     (case f of
        NilFile \<Rightarrow> (0, Some ErrInvalid, emit (OsWrite s 0 (Some ErrInvalid)) w)
      | File p False \<Rightarrow> (0, Some ErrClosed, emit (OsWrite s 0 (Some ErrClosed)) w)
      | File p True \<Rightarrow>
          (case nextFault w of
             (Some Fault, w1) \<Rightarrow> (0, Some ErrIO, emit (OsWrite s 0 (Some ErrIO)) w1)
           | (Some (ShortWrite n), w1) \<Rightarrow>
               (min n (length s), Some ErrIO,
                emit (OsWrite s (min n (length s)) (Some ErrIO))
                  (w1\<lparr>files := appendTo p (take (min n (length s)) s) (files w1)\<rparr>))
           | (None, w1) \<Rightarrow>
               (length s, None,
                emit (OsWrite s (length s) None) (w1\<lparr>files := appendTo p s (files w1)\<rparr>))))"

text \<open>\<^verbatim>\<open>os.Remove(path)\<close>.\<close>

definition osRemove :: "path \<Rightarrow> world \<Rightarrow> error option \<times> world" where
  "osRemove p w0 =
     (case nextFault w0 of
        (Some f, w) \<Rightarrow> (Some ErrIO, emit (OsRemove p (Some ErrIO)) w)
      | (None, w) \<Rightarrow>
          (case map_of (files w) p of
             None \<Rightarrow> (Some ErrNotExist, emit (OsRemove p (Some ErrNotExist)) w)
           | Some c \<Rightarrow> (None, emit (OsRemove p None) (w\<lparr>files := unlink p (files w)\<rparr>))))"

text \<open>
  \<^verbatim>\<open>filepath.Dir\<close> on a cleaned absolute path: everything before the last separator.
\<close>

definition filepathDir :: "path \<Rightarrow> path" where
  "filepathDir p =
     (if CHR ''/'' \<notin> set p then ''.''
      else (let d = rev (drop 1 (dropWhile (\<lambda>c. c \<noteq> CHR ''/'') (rev p)))
            in if d = [] then ''/'' else d))"

text \<open>
  Whether the walk from \<open>root\<close> comes to \<open>p\<close>: the root itself and what lies below it;
  from \<^verbatim>\<open>.\<close> the walk hands out the relative paths.
\<close>

definition inDirectory :: "path \<Rightarrow> path \<Rightarrow> bool" where
  "inDirectory root p =
     (if root = ''.'' then p = ''.'' \<or> (p \<noteq> [] \<and> hd p \<noteq> CHR ''/'')
      else p = root \<or>
           prefix (if root \<noteq> [] \<and> last root = CHR ''/'' then root else root @ ''/'') p)"

text \<open>
  \<^verbatim>\<open>filepath.Walk(root, fn)\<close>: the paths it hands to \<open>fn\<close>, in the order of the walk, or
  the error it returns. The order of \<open>files\<close> stands for the order of the walk. The model
  lets the walk fail as any other call may, which is what \<open>deleteOld\<close> tests for; the walk of
  the Go library returns what the callback returns, and the callback of \<open>deleteOld\<close> returns
  nil.
\<close>

definition osWalk :: "path \<Rightarrow> world \<Rightarrow> (error + path list) \<times> world" where
  "osWalk root w0 =
     (case nextFault w0 of
        (Some f, w) \<Rightarrow> (Inl ErrIO, emit (OsWalk root (Some ErrIO)) w)
      | (None, w) \<Rightarrow>
          (Inr (filter (inDirectory root) (map fst (files w))), emit (OsWalk root None) w))"

text \<open>\<^verbatim>\<open>time.Now().Format(time.RFC3339)\<close>: one reading of the clock.\<close>

definition timeNow :: "world \<Rightarrow> string \<times> world" where
  "timeNow w = (clock w (ticks w), w\<lparr>ticks := Suc (ticks w)\<rparr>)"

text \<open>\<^verbatim>\<open>fmt.Println(msg, err)\<close>: the operator-visible channel.\<close>

definition println :: "string \<Rightarrow> error \<Rightarrow> world \<Rightarrow> world" where
  "println msg err w = emit (Println msg err) w"

text \<open>\<^verbatim>\<open>strings.Split(s, sep)\<close> for a one-byte separator; the result is never empty.\<close>

fun stringsSplit :: "char \<Rightarrow> string \<Rightarrow> string list" where
  "stringsSplit sep [] = [[]]"
| "stringsSplit sep (c # cs) =
     (if c = sep then [] # stringsSplit sep cs
      else (case stringsSplit sep cs of
              [] \<Rightarrow> [[c]]
            | x # xs \<Rightarrow> (c # x) # xs))"

definition stringsHasPrefix :: "string \<Rightarrow> string \<Rightarrow> bool" where
  "stringsHasPrefix s pre = prefix pre s"

section \<open>What the package and the library supply\<close>

text \<open>
  Three functions the writer calls are neither in \<^verbatim>\<open>writer.rolling.go\<close> nor modelled
  here: \<^verbatim>\<open>toAbsolutePath\<close> and \<^verbatim>\<open>formatStandard\<close> of the package, and whether
  \<^verbatim>\<open>time.Parse(time.RFC3339, s)\<close> of the Go library succeeds. The definitions that call
  them take them as a parameter, and the theorems hold for all of them.
\<close>

record ('lg, 'lv) env =
  toAbsolutePath :: "string \<Rightarrow> path"
  formatStandard :: "'lg \<Rightarrow> 'lv \<Rightarrow> string \<Rightarrow> string"
  timeParse :: "string \<Rightarrow> bool"

text \<open>
  Modelled from the spec: the constant \<^verbatim>\<open>megabyte\<close> is declared elsewhere in the package;
  the spec has the size "converted internally to bytes by multiplying by 1,048,576".
\<close>

definition megabyte :: "64 word" where
  "megabyte = 1048576"

section \<open>The rolling writer\<close>

text \<open>
  The struct \<^verbatim>\<open>rollingWriter\<close>, without its mutex: the model runs one call at a time,
  which is what the mutex enforces. The size given to the constructor is an \<^verbatim>\<open>int\<close> of 64
  bits, so that its product with \<open>megabyte\<close> wraps; \<open>maxCount\<close> is only ever compared with a
  length and is an integer.
\<close>

record rollingWriter =
  closed :: bool
  fileHandle :: osFile
  fileName :: path
  maxSize :: "64 word"
  maxCount :: int
  bytesWritten :: "64 word"

definition rotate :: "rollingWriter \<Rightarrow> world \<Rightarrow> error option \<times> rollingWriter \<times> world" where
  "rotate r w0 =
     (case osClose (fileHandle r) (emit CallRotate w0) of
        (Some err, f, w1) \<Rightarrow> (Some err, r\<lparr>fileHandle := f\<rparr>, w1)
      | (None, f, w1) \<Rightarrow>
          (let r1 = r\<lparr>fileHandle := f\<rparr> in
           case timeNow w1 of
             (now, w2) \<Rightarrow>
               (case osRename (fileName r1) (fileName r1 @ ''.'' @ now) w2 of
                  (Some err, w3) \<Rightarrow> (Some err, r1, w3)
                | (None, w3) \<Rightarrow>
                    (let r2 = r1\<lparr>bytesWritten := 0\<rparr> in
                     case openFile (fileName r2) w3 of
                       (f', err, w4) \<Rightarrow> (err, r2\<lparr>fileHandle := f'\<rparr>, w4)))))"

text \<open>The callback that \<open>deleteOld\<close> hands to \<^verbatim>\<open>filepath.Walk\<close>; it always returns nil.\<close>

definition walkFn :: "('lg, 'lv) env \<Rightarrow> rollingWriter \<Rightarrow> path \<Rightarrow> path list \<Rightarrow> path list" where
  "walkFn env r path logFiles =
     (if \<not> stringsHasPrefix path (fileName r) then logFiles
      else if \<not> timeParse env (last (stringsSplit (CHR ''.'') path)) then logFiles
      else logFiles @ [path])"

text \<open>
  The loop \<^verbatim>\<open>for len(logFiles) > r.maxCount\<close>. Reading \<^verbatim>\<open>logFiles[0]\<close> of an empty
  slice is the runtime panic.
\<close>

fun deleteLoop :: "int \<Rightarrow> path list \<Rightarrow> world \<Rightarrow> (panic + error option) \<times> world" where
  "deleteLoop maxCnt [] w =
     (if int (length ([] :: path list)) > maxCnt then (Inl PanicIndex, w) else (Inr None, w))"
| "deleteLoop maxCnt (path # logFiles) w =
     (if int (length (path # logFiles)) > maxCnt then
        (case osRemove path w of
           (Some err, w1) \<Rightarrow> (Inr (Some err), w1)
         | (None, w1) \<Rightarrow> deleteLoop maxCnt logFiles w1)
      else (Inr None, w))"

definition deleteOld ::
  "('lg, 'lv) env \<Rightarrow> rollingWriter \<Rightarrow> world \<Rightarrow> (panic + error option) \<times> world" where
  "deleteOld env r w0 =
     (case osWalk (filepathDir (fileName r)) (emit CallDeleteOld w0) of
        (Inl err, w1) \<Rightarrow> (Inr (Some err), w1)
      | (Inr visited, w1) \<Rightarrow>
          deleteLoop (maxCount r) (fold (walkFn env r) visited []) w1)"

text \<open>
  The method \<^verbatim>\<open>write\<close> (\<open>write\<close> is a command of Isabelle, hence \<open>writeLine\<close>). It
  returns nothing to its caller; the first component of the result tells whether the call
  panicked.
\<close>

definition writeLine ::
  "('lg, 'lv) env \<Rightarrow> rollingWriter \<Rightarrow> 'lg \<Rightarrow> 'lv \<Rightarrow> string \<Rightarrow> world
     \<Rightarrow> panic option \<times> rollingWriter \<times> world" where
  "writeLine env r logger level line w =
     (if closed r then (None, r, w)
      else
        (case osWriteString (fileHandle r) (formatStandard env logger level line @ [CHR 0x0A]) w of
           (count, Some err, w1) \<Rightarrow> (None, r, println ''Failed to write log line:'' err w1)
         | (count, None, w1) \<Rightarrow>
             (let r1 = r\<lparr>bytesWritten := bytesWritten r + of_nat count\<rparr> in
              if maxSize r1 \<le>s bytesWritten r1 then
                (case rotate r1 w1 of
                   (rerr, r2, w2) \<Rightarrow>
                     (case deleteOld env r2
                             (case rerr of
                                Some err \<Rightarrow> println ''Failed to rotate log file:'' err w2
                              | None \<Rightarrow> w2) of
                        (Inl p, w3) \<Rightarrow> (Some p, r2, w3)
                      | (Inr (Some err), w3) \<Rightarrow>
                          (None, r2, println ''Failed to delete old log file:'' err w3)
                      | (Inr None, w3) \<Rightarrow> (None, r2, w3)))
              else (None, r1, w1))))"

definition close :: "rollingWriter \<Rightarrow> world \<Rightarrow> rollingWriter \<times> world" where
  "close r w =
     (case osClose (fileHandle r) w of
        (err, f, w1) \<Rightarrow> (r\<lparr>fileHandle := f, closed := True\<rparr>, w1))"

text \<open>
  Modelled from the spec: \<^verbatim>\<open>panicOnError\<close> is a helper of the package that is not in
  \<^verbatim>\<open>writer.rolling.go\<close>; by its name and by the spec ("any error while
  opening/creating/rotating, is a fatal initialization failure") it panics with the error
  when there is one.
\<close>

definition panicOnError :: "error option \<Rightarrow> panic option" where
  "panicOnError err = (case err of None \<Rightarrow> None | Some e \<Rightarrow> Some (PanicError e))"

text \<open>The last two lines of both branches of the constructor.\<close>

definition deleteOldOrPanic ::
  "('lg, 'lv) env \<Rightarrow> rollingWriter \<Rightarrow> world \<Rightarrow> (panic + rollingWriter) \<times> world" where
  "deleteOldOrPanic env writer w =
     (case deleteOld env writer w of
        (Inl p, w1) \<Rightarrow> (Inl p, w1)
      | (Inr err, w1) \<Rightarrow>
          (case panicOnError err of
             Some p \<Rightarrow> (Inl p, w1)
           | None \<Rightarrow> (Inr writer, w1)))"

definition newRollingWriter ::
  "('lg, 'lv) env \<Rightarrow> string \<Rightarrow> 64 word \<Rightarrow> int \<Rightarrow> world \<Rightarrow> (panic + rollingWriter) \<times> world" where
  "newRollingWriter env name maxSz maxCnt w =
     (let writer = \<lparr>closed = False, fileHandle = NilFile, fileName = toAbsolutePath env name,
                    maxSize = maxSz * megabyte, maxCount = maxCnt, bytesWritten = 0\<rparr> in
      case osStat (fileName writer) w of
        (Inl err, w1) \<Rightarrow>
          (if err \<noteq> ErrNotExist then (Inl (PanicError err), w1)
           else
             (case openFile (fileName writer) w1 of
                (f, err, w2) \<Rightarrow>
                  (case panicOnError err of
                     Some p \<Rightarrow> (Inl p, w2)
                   | None \<Rightarrow> deleteOldOrPanic env (writer\<lparr>fileHandle := f\<rparr>) w2)))
      | (Inr sz, w1) \<Rightarrow>
          (case openFile (fileName writer) w1 of
             (f, err, w2) \<Rightarrow>
               (case panicOnError err of
                  Some p \<Rightarrow> (Inl p, w2)
                | None \<Rightarrow>
                    (let writer1 = writer\<lparr>fileHandle := f, bytesWritten := sz\<rparr> in
                     if maxSize writer1 \<le>s bytesWritten writer1 then
                       (case rotate writer1 w2 of
                          (rerr, writer2, w3) \<Rightarrow>
                            (case panicOnError rerr of
                               Some p \<Rightarrow> (Inl p, w3)
                             | None \<Rightarrow> deleteOldOrPanic env writer2 w3))
                     else deleteOldOrPanic env writer1 w2))))"


section \<open>Vocabulary of the claims\<close>

text \<open>The events that a call added to the trace, between the world before and after it.\<close>

definition since :: "world \<Rightarrow> world \<Rightarrow> event list" where
  "since w w' = drop (length (trace w)) (trace w')"

text \<open>
  The archive set: the paths on which the callback of \<open>deleteOld\<close> appends to
  \<^verbatim>\<open>logFiles\<close>, in the order in which the walk discovers them.
\<close>

definition isArchive :: "('lg, 'lv) env \<Rightarrow> rollingWriter \<Rightarrow> path \<Rightarrow> bool" where
  "isArchive env r path =
     (stringsHasPrefix path (fileName r) \<and> timeParse env (last (stringsSplit (CHR ''.'') path)))"

definition archives :: "('lg, 'lv) env \<Rightarrow> rollingWriter \<Rightarrow> world \<Rightarrow> path list" where
  "archives env r w =
     filter (isArchive env r)
       (filter (inDirectory (filepathDir (fileName r))) (map fst (files w)))"

text \<open>A caller that writes one line after the other, until a call panics.\<close>

fun writeAll ::
  "('lg, 'lv) env \<Rightarrow> rollingWriter \<Rightarrow> ('lg \<times> 'lv \<times> string) list \<Rightarrow> world
     \<Rightarrow> panic option \<times> rollingWriter \<times> world" where
  "writeAll env r [] w = (None, r, w)"
| "writeAll env r ((logger, level, line) # rest) w =
     (case writeLine env r logger level line w of
        (Some p, r1, w1) \<Rightarrow> (Some p, r1, w1)
      | (None, r1, w1) \<Rightarrow> writeAll env r1 rest w1)"

text \<open>
  The system calls that \<open>rotate\<close> makes, and the ones that \<open>deleteOld\<close> makes: the two
  sorts of events by which the trace of a longer run is taken apart.
\<close>

fun fromRotate :: "event \<Rightarrow> bool" where
  "fromRotate (OsClose err) = True"
| "fromRotate (OsRename old new err) = True"
| "fromRotate (OsOpen p err) = True"
| "fromRotate ev = False"

fun fromScan :: "event \<Rightarrow> bool" where
  "fromScan (OsWalk root err) = True"
| "fromScan (OsRemove p err) = True"
| "fromScan ev = False"

text \<open>
  What holds of \<open>bytesWritten\<close> in the absence of short writes: it is the size of the live
  file, as long as there is one (\<open>synced\<close>). The handle of the writer, if any, is on the
  live path (\<open>ownHandle\<close>), and no fault to come is a short write (\<open>noShortWrite\<close>).
\<close>

definition synced :: "rollingWriter \<Rightarrow> world \<Rightarrow> bool" where
  "synced r w =
     (case map_of (files w) (fileName r) of
        None \<Rightarrow> True
      | Some c \<Rightarrow> bytesWritten r = of_nat (length c))"

definition ownHandle :: "rollingWriter \<Rightarrow> bool" where
  "ownHandle r = (case fileHandle r of NilFile \<Rightarrow> True | File p b \<Rightarrow> p = fileName r)"

fun wholeOrNothing :: "fault option \<Rightarrow> bool" where
  "wholeOrNothing (Some (ShortWrite n)) = False"
| "wholeOrNothing f = True"

definition noShortWrite :: "world \<Rightarrow> bool" where
  "noShortWrite w = list_all wholeOrNothing (script w)"

section \<open>A concrete instance\<close>

text \<open>
  For running the model on concrete inputs the three parameters are instantiated: paths are
  given absolute, a line is formatted as itself, and the timestamps recognised are those of
  the shape \<^verbatim>\<open>2006-01-02T15:04:05Z\<close> (four digits, a month up to 12, a day up to 28, a time
  of day to the second, UTC), all of which \<^verbatim>\<open>time.Parse(time.RFC3339, s)\<close> accepts and
  \<^verbatim>\<open>time.Now().UTC().Format(time.RFC3339)\<close> produces.
\<close>

definition isDigit :: "char \<Rightarrow> bool" where
  "isDigit c = (c \<in> set ''0123456789'')"

definition twoDigits :: "nat \<Rightarrow> nat \<Rightarrow> char \<Rightarrow> char \<Rightarrow> bool" where
  "twoDigits lo hi a b =
     (isDigit a \<and> isDigit b \<and>
      lo \<le> 10 * (of_char a - 48) + (of_char b - 48) \<and>
      10 * (of_char a - 48) + (of_char b - (48::nat)) \<le> hi)"

definition utcTimestamp :: "string \<Rightarrow> bool" where
  "utcTimestamp s =
     (length s = 20 \<and>
      isDigit (s ! 0) \<and> isDigit (s ! 1) \<and> isDigit (s ! 2) \<and> isDigit (s ! 3) \<and>
      s ! 4 = CHR ''-'' \<and> twoDigits 1 12 (s ! 5) (s ! 6) \<and>
      s ! 7 = CHR ''-'' \<and> twoDigits 1 28 (s ! 8) (s ! 9) \<and>
      s ! 10 = CHR ''T'' \<and> twoDigits 0 23 (s ! 11) (s ! 12) \<and>
      s ! 13 = CHR '':'' \<and> twoDigits 0 59 (s ! 14) (s ! 15) \<and>
      s ! 16 = CHR '':'' \<and> twoDigits 0 59 (s ! 17) (s ! 18) \<and>
      s ! 19 = CHR ''Z'')"

definition env0 :: "(unit, unit) env" where
  "env0 = \<lparr>toAbsolutePath = (\<lambda>name. name), formatStandard = (\<lambda>logger level line. line),
           timeParse = utcTimestamp\<rparr>"

text \<open>A writer at its threshold of ten bytes, over a live file of ten bytes.\<close>

definition writerA :: rollingWriter where
  "writerA = \<lparr>closed = False, fileHandle = File ''/log/app'' True, fileName = ''/log/app'',
              maxSize = 10, maxCount = 1, bytesWritten = 10\<rparr>"

definition worldA :: world where
  "worldA = \<lparr>files = [(''/log/app'', ''0123456789'')], script = [],
             clock = (\<lambda>n. ''2006-01-02T15:04:05Z''), ticks = 0, trace = []\<rparr>"

text \<open>A directory with the live file, two archives and a file that only shares the prefix.\<close>

definition worldC :: world where
  "worldC = \<lparr>files = [(''/log/app'', ''abc''),
                       (''/log/app.2006-01-02T15:04:05Z'', ''old''),
                       (''/log/app.2007-01-02T15:04:05Z'', ''new''),
                       (''/log/app.bak'', ''x'')], script = [],
             clock = (\<lambda>n. ''2008-01-02T15:04:05Z''), ticks = 0, trace = []\<rparr>"

text \<open>
  A live file whose own name ends in a timestamp, under a writer that keeps no archive: the
  writer as the constructor has it when it comes to its call of \<open>deleteOld\<close>.
\<close>

definition writerB :: rollingWriter where
  "writerB = \<lparr>closed = False, fileHandle = File ''/log/app.2006-01-02T15:04:05Z'' True,
              fileName = ''/log/app.2006-01-02T15:04:05Z'',
              maxSize = 1048576, maxCount = 0, bytesWritten = 3\<rparr>"

definition worldB :: world where
  "worldB = \<lparr>files = [(''/log/app.2006-01-02T15:04:05Z'', ''abc'')], script = [],
             clock = (\<lambda>n. ''2008-01-02T15:04:05Z''), ticks = 0, trace = []\<rparr>"

text \<open>A live file of exactly one megabyte.\<close>

definition worldD :: world where
  "worldD = \<lparr>files = [(''/log/app'', replicate 1048576 (CHR ''x''))], script = [],
             clock = (\<lambda>n. ''2006-01-02T15:04:05Z''), ticks = 0, trace = []\<rparr>"

text \<open>
  An empty directory, in which the fourth system call to come, the first write after the
  three calls of the constructor, is going to fail after three bytes.
\<close>

definition worldE :: world where
  "worldE = \<lparr>files = [], script = [None, None, None, Some (ShortWrite 3)],
             clock = (\<lambda>n. ''2006-01-02T15:04:05Z''), ticks = 0, trace = []\<rparr>"

text \<open>
  A directory in which an archive is left and the live file is gone; the fourth system call
  to come, the removal after the stat, the open and the walk of the constructor, is going to
  fail.
\<close>

definition worldF :: world where
  "worldF = \<lparr>files = [(''/log/app.2006-01-02T15:04:05Z'', ''old'')],
             script = [None, None, None, Some Fault],
             clock = (\<lambda>n. ''2008-01-02T15:04:05Z''), ticks = 0, trace = []\<rparr>"

section \<open>The system calls\<close>

lemma nextFault_fields:
  "nextFault w = (f, w') \<Longrightarrow>
     files w' = files w \<and> trace w' = trace w \<and> clock w' = clock w \<and> ticks w' = ticks w"
  by (auto simp: nextFault_def split: list.splits)

lemma osRemove_result:
  assumes "osRemove p w = (err, w')"
  shows "trace w' = trace w @ [OsRemove p err]"
    and "err \<noteq> None \<Longrightarrow> files w' = files w"
    and "err = None \<Longrightarrow> files w' = unlink p (files w)"
    and "clock w' = clock w" and "ticks w' = ticks w"
  using assms
  by (auto simp: osRemove_def emit_def split: prod.splits option.splits dest: nextFault_fields)

lemma osClose_result:
  assumes "osClose f w = (err, f', w')"
  shows "trace w' = trace w @ [OsClose err]"
    and "files w' = files w"
    and "clock w' = clock w" and "ticks w' = ticks w"
    and "f' \<noteq> File p True"
  using assms
  by (auto simp: osClose_def emit_def split: prod.splits option.splits osFile.splits bool.splits dest: nextFault_fields)

lemma osRename_result:
  assumes "osRename old new w = (err, w')"
  shows "trace w' = trace w @ [OsRename old new err]"
    and "err \<noteq> None \<Longrightarrow> files w' = files w"
    and "err = None \<Longrightarrow> \<exists>c. map_of (files w) old = Some c \<and>
           files w' = unlink new (unlink old (files w)) @ [(new, c)]"
    and "clock w' = clock w" and "ticks w' = ticks w"
  using assms
  by (auto simp: osRename_def emit_def split: prod.splits option.splits dest: nextFault_fields)

lemma openFile_result:
  assumes "openFile p w = (f, err, w')"
  shows "trace w' = trace w @ [OsOpen p err]"
    and "err \<noteq> None \<Longrightarrow> files w' = files w \<and> f = NilFile"
    and "err = None \<Longrightarrow> f = File p True \<and>
           files w' = (if map_of (files w) p = None then files w @ [(p, [])] else files w)"
    and "clock w' = clock w" and "ticks w' = ticks w"
  using assms
  by (auto simp: openFile_def emit_def split: prod.splits option.splits dest: nextFault_fields)

lemma osWalk_result:
  assumes "osWalk root w = (res, w')"
  shows "files w' = files w"
    and "clock w' = clock w" and "ticks w' = ticks w"
    and "\<And>e. res = Inl e \<Longrightarrow> trace w' = trace w @ [OsWalk root (Some e)]"
    and "\<And>ps. res = Inr ps \<Longrightarrow> trace w' = trace w @ [OsWalk root None] \<and>
            ps = filter (inDirectory root) (map fst (files w))"
  using assms
  by (auto simp: osWalk_def emit_def split: prod.splits option.splits dest: nextFault_fields)

lemma osStat_result:
  assumes "osStat p w = (res, w')"
  shows "files w' = files w"
    and "clock w' = clock w" and "ticks w' = ticks w"
    and "\<And>e. res = Inl e \<Longrightarrow> trace w' = trace w @ [OsStat p (Some e)]"
    and "\<And>sz. res = Inr sz \<Longrightarrow> trace w' = trace w @ [OsStat p None] \<and>
            (\<exists>c. map_of (files w) p = Some c \<and> sz = of_nat (length c))"
    and "res = Inl ErrNotExist \<Longrightarrow> map_of (files w) p = None"
  using assms
  by (auto simp: osStat_def emit_def split: prod.splits option.splits dest: nextFault_fields)

lemma osWriteString_result:
  assumes "osWriteString f s w = (n, err, w')"
  shows "trace w' = trace w @ [OsWrite s n err]"
    and "clock w' = clock w" and "ticks w' = ticks w"
    and "err = None \<Longrightarrow> n = length s \<and> (\<exists>p. f = File p True \<and> files w' = appendTo p s (files w))"
  using assms
  by (auto simp: osWriteString_def emit_def split: prod.splits option.splits osFile.splits bool.splits fault.splits dest: nextFault_fields)

lemmas os_defs = osStat_def openFile_def osClose_def osRename_def osWriteString_def osRemove_def
  osWalk_def timeNow_def println_def emit_def nextFault_def unlink_def appendTo_def
  filepathDir_def inDirectory_def stringsHasPrefix_def

lemmas inst_defs = env0_def utcTimestamp_def twoDigits_def isDigit_def

lemma since_append: "trace w' = trace w @ evs \<Longrightarrow> since w w' = evs"
  by (simp add: since_def)

lemma count_list_0: "x \<notin> set xs \<Longrightarrow> count_list xs x = 0"
  by (induction xs) auto

lemma list_all_count0: "list_all P xs \<Longrightarrow> \<not> P x \<Longrightarrow> count_list xs x = 0"
  by (induction xs) auto

lemma fromRotate_others:
  assumes "list_all fromRotate evs"
  shows "OsWalk d x \<notin> set evs" and "OsRemove q x \<notin> set evs" and "OsWrite s n e \<notin> set evs"
    and "CallRotate \<notin> set evs" and "CallDeleteOld \<notin> set evs"
  using assms by (induction evs) auto

lemma fromScan_others:
  assumes "list_all fromScan evs"
  shows "OsWrite s n e \<notin> set evs" and "CallRotate \<notin> set evs" and "CallDeleteOld \<notin> set evs"
  using assms by (induction evs) auto

section \<open>Rotation\<close>

lemma map_of_unlink: "map_of (unlink p fs) q = (if q = p then None else map_of fs q)"
  by (induction fs) (auto simp: unlink_def)

lemma rotate_cases:
  assumes "rotate r w = (err, r', w')"
  obtains (close_failed) e f w1 where
      "osClose (fileHandle r) (emit CallRotate w) = (Some e, f, w1)"
      "err = Some e" "r' = r\<lparr>fileHandle := f\<rparr>" "w' = w1"
  | (rename_failed) e f w1 w3 where
      "osClose (fileHandle r) (emit CallRotate w) = (None, f, w1)"
      "osRename (fileName r) (fileName r @ ''.'' @ clock w1 (ticks w1))
         (w1\<lparr>ticks := Suc (ticks w1)\<rparr>) = (Some e, w3)"
      "err = Some e" "r' = r\<lparr>fileHandle := f\<rparr>" "w' = w3"
  | (renamed) f w1 w3 f' w4 where
      "osClose (fileHandle r) (emit CallRotate w) = (None, f, w1)"
      "osRename (fileName r) (fileName r @ ''.'' @ clock w1 (ticks w1))
         (w1\<lparr>ticks := Suc (ticks w1)\<rparr>) = (None, w3)"
      "openFile (fileName r) w3 = (f', err, w4)"
      "r' = r\<lparr>bytesWritten := 0, fileHandle := f'\<rparr>" "w' = w4"
proof -
  obtain cerr f w1 where c: "osClose (fileHandle r) (emit CallRotate w) = (cerr, f, w1)"
    by (metis prod_cases3)
  obtain rerr w3 where
    rn: "osRename (fileName r) (fileName r @ ''.'' @ clock w1 (ticks w1))
           (w1\<lparr>ticks := Suc (ticks w1)\<rparr>) = (rerr, w3)"
    by (metis prod.exhaust)
  obtain f' oerr w4 where op: "openFile (fileName r) w3 = (f', oerr, w4)"
    by (metis prod_cases3)
  show thesis
  proof (cases cerr)
    case (Some e)
    with assms c show thesis
      by (intro close_failed [of e f w1]) (simp_all add: rotate_def)
  next
    case None
    show thesis
    proof (cases rerr)
      case (Some e)
      with assms c None rn show thesis
        by (intro rename_failed [of f w1 e w3]) (simp_all add: rotate_def timeNow_def Let_def)
    next
      case rNone: None
      with assms c None rn op show thesis
        by (intro renamed [of f w1 w3 f' w4]) (simp_all add: rotate_def timeNow_def Let_def)
    qed
  qed
qed

lemma rotate_events:
  assumes "rotate r w = (err, r', w')"
  shows "\<exists>evs. trace w' = trace w @ CallRotate # evs \<and> list_all fromRotate evs"
  using assms
proof (cases rule: rotate_cases)
  case (close_failed e f w1)
  with osClose_result(1) [OF close_failed(1)] show ?thesis
    by (simp add: emit_def)
next
  case (rename_failed e f w1 w3)
  with osClose_result(1) [OF rename_failed(1)] osRename_result(1) [OF rename_failed(2)]
  show ?thesis by (simp add: emit_def)
next
  case (renamed f w1 w3 f' w4)
  with osClose_result(1) [OF renamed(1)] osRename_result(1) [OF renamed(2)]
    openFile_result(1) [OF renamed(3)]
  show ?thesis by (simp add: emit_def)
qed

lemma rotate_success:
  assumes "rotate r w = (None, r', w')"
  shows "bytesWritten r' = 0"
  using assms by (cases rule: rotate_cases) simp_all

lemma rotate_success_files:
  assumes "rotate r w = (None, r', w')"
  shows "fileName r' = fileName r \<and>
         fileName r @ ''.'' @ clock w (ticks w) \<in> set (map fst (files w'))"
  using assms
proof (cases rule: rotate_cases)
  case (renamed f w1 w3 f' w4)
  note cr = osClose_result [OF renamed(1)]
  note rr = osRename_result [OF renamed(2)]
  note orr = openFile_result [OF renamed(3)]
  have ck: "clock w1 (ticks w1) = clock w (ticks w)"
    using cr by (simp add: emit_def)
  from rr(3) have "fileName r @ ''.'' @ clock w (ticks w) \<in> set (map fst (files w3))"
    using ck by auto
  with orr(3) renamed(4,5) show ?thesis by auto
qed simp_all

text \<open>
  C7. \<open>rotate\<close> closes the live file's handle, renames the live path to the path with the
  timestamp suffix, resets \<open>bytesWritten\<close> to zero and opens a new file at the live path, in
  this order. A step that fails ends the call with that step's error: when the close or the
  rename fails, the calls made are the ones up to the failed one, \<open>bytesWritten\<close> and the
  files are what they were and the writer holds no open handle; the error of the last step,
  the open, is returned as well, by then with \<open>bytesWritten\<close> at zero.
\<close>

theorem rotate_steps_in_order:
  assumes "rotate r w = (err, r', w')"
  shows "closed r' = closed r \<and> fileName r' = fileName r \<and> maxSize r' = maxSize r \<and>
         maxCount r' = maxCount r \<and>
         ((\<exists>e. err = Some e \<and>
               trace w' = trace w @ [CallRotate, OsClose (Some e)] \<and>
               bytesWritten r' = bytesWritten r \<and> files w' = files w \<and>
               (\<forall>p. fileHandle r' \<noteq> File p True))
          \<or> (\<exists>e. err = Some e \<and>
               trace w' = trace w @ [CallRotate, OsClose None,
                  OsRename (fileName r) (fileName r @ ''.'' @ clock w (ticks w)) (Some e)] \<and>
               bytesWritten r' = bytesWritten r \<and> files w' = files w \<and>
               (\<forall>p. fileHandle r' \<noteq> File p True))
          \<or> (trace w' = trace w @ [CallRotate, OsClose None,
                  OsRename (fileName r) (fileName r @ ''.'' @ clock w (ticks w)) None,
                  OsOpen (fileName r) err] \<and>
              bytesWritten r' = 0 \<and>
              (\<exists>c. map_of (files w) (fileName r) = Some c \<and>
                   files w' =
                     unlink (fileName r @ ''.'' @ clock w (ticks w)) (unlink (fileName r) (files w))
                       @ (fileName r @ ''.'' @ clock w (ticks w), c)
                       # (if err = None then [(fileName r, [])] else [])) \<and>
              fileHandle r' = (if err = None then File (fileName r) True else NilFile)))"
  using assms
proof (cases rule: rotate_cases)
  case (close_failed e f w1)
  note cr = osClose_result [OF close_failed(1)]
  from close_failed cr show ?thesis
    by (auto simp: emit_def)
next
  case (rename_failed e f w1 w3)
  note cr = osClose_result [OF rename_failed(1)]
  note rr = osRename_result [OF rename_failed(2)]
  from rename_failed(3-) cr rr show ?thesis
    by (auto simp: emit_def)
next
  case (renamed f w1 w3 f' w4)
  note cr = osClose_result [OF renamed(1)]
  note rr = osRename_result [OF renamed(2)]
  note orr = openFile_result [OF renamed(3)]
  let ?a = "fileName r @ ''.'' @ clock w (ticks w)"
  have ck: "clock w1 (ticks w1) = clock w (ticks w)"
    using cr by (simp add: emit_def)
  from rr(3) obtain c where c0: "map_of (files w) (fileName r) = Some c"
    and f3: "files w3 = unlink ?a (unlink (fileName r) (files w)) @ [(?a, c)]"
    using cr(2) ck by (auto simp: emit_def)
  have absent: "map_of (files w3) (fileName r) = None"
    unfolding f3 by (simp add: map_of_unlink)
  have tr: "trace w' = trace w @ [CallRotate, OsClose None, OsRename (fileName r) ?a None,
              OsOpen (fileName r) err]"
    using renamed(5) orr(1) rr(1) cr(1) ck by (simp add: emit_def)
  have fl: "files w' = unlink ?a (unlink (fileName r) (files w)) @ (?a, c)
              # (if err = None then [(fileName r, [])] else [])"
    using renamed(5) orr(2,3) absent f3 by (cases err) auto
  have fh: "fileHandle r' = (if err = None then File (fileName r) True else NilFile)"
    using renamed(4) orr(2,3) by (cases err) auto
  from tr fl fh c0 renamed(4) show ?thesis by auto
qed

theorem rotate_steps_in_order_witness:
  "rotate writerA worldA =
     (None, writerA\<lparr>fileHandle := File ''/log/app'' True, bytesWritten := 0\<rparr>,
      worldA\<lparr>files := [(''/log/app.2006-01-02T15:04:05Z'', ''0123456789''), (''/log/app'', [])],
             ticks := 1,
             trace := [CallRotate, OsClose None,
                       OsRename ''/log/app'' ''/log/app.2006-01-02T15:04:05Z'' None,
                       OsOpen ''/log/app'' None]\<rparr>) \<and>
   bytesWritten (writerA\<lparr>fileHandle := File ''/log/app'' True, bytesWritten := 0\<rparr>) = 0 \<and>
   fileName (writerA\<lparr>fileHandle := File ''/log/app'' True, bytesWritten := 0\<rparr>)
     = fileName writerA"
proof -
  have run: "rotate writerA worldA =
     (None, writerA\<lparr>fileHandle := File ''/log/app'' True, bytesWritten := 0\<rparr>,
      worldA\<lparr>files := [(''/log/app.2006-01-02T15:04:05Z'', ''0123456789''), (''/log/app'', [])],
             ticks := 1,
             trace := [CallRotate, OsClose None,
                       OsRename ''/log/app'' ''/log/app.2006-01-02T15:04:05Z'' None,
                       OsOpen ''/log/app'' None]\<rparr>)"
    by (simp add: rotate_def writerA_def worldA_def os_defs)
  from rotate_steps_in_order [OF run] show ?thesis
    using run by auto
qed

section \<open>The name of an archive\<close>

lemma stringsSplit_nonempty: "stringsSplit sep s \<noteq> []"
  by (induction s) (auto split: list.splits)

lemma stringsSplit_no_sep: "sep \<notin> set s \<Longrightarrow> stringsSplit sep s = [s]"
  by (induction s) auto

lemma stringsSplit_append_sep:
  "\<exists>h t. stringsSplit sep (xs @ sep # ys) = h # t \<and> t \<noteq> [] \<and>
         last t = last (stringsSplit sep ys)"
proof (induction xs)
  case Nil
  then show ?case by (simp add: stringsSplit_nonempty)
next
  case (Cons x xs)
  then obtain h t where ht: "stringsSplit sep (xs @ sep # ys) = h # t" "t \<noteq> []"
    "last t = last (stringsSplit sep ys)"
    by blast
  then show ?case by (cases "x = sep") simp_all
qed

lemma last_stringsSplit_suffix:
  assumes "sep \<notin> set t"
  shows "last (stringsSplit sep (p @ sep # t)) = t"
proof -
  from stringsSplit_append_sep [of sep p t] obtain h tl where
    "stringsSplit sep (p @ sep # t) = h # tl" "tl \<noteq> []" "last tl = last (stringsSplit sep t)"
    by blast
  then show ?thesis by (simp add: stringsSplit_no_sep [OF assms])
qed

lemma filepathDir_split:
  assumes "CHR ''/'' \<notin> set base"
  shows "filepathDir (d @ CHR ''/'' # base) = (if d = [] then ''/'' else d)"
proof -
  have "\<And>x. x \<in> set (rev base) \<Longrightarrow> x \<noteq> CHR ''/''"
    using assms by auto
  then have "dropWhile (\<lambda>c. c \<noteq> CHR ''/'') (rev base @ CHR ''/'' # rev d)
             = dropWhile (\<lambda>c. c \<noteq> CHR ''/'') (CHR ''/'' # rev d)"
    by (rule dropWhile_append2)
  then show ?thesis by (simp add: filepathDir_def)
qed

lemma inDirectory_below:
  "inDirectory (if d = [] then ''/'' else d) (d @ CHR ''/'' # rest)"
proof (cases "d = []")
  case True
  then show ?thesis by (simp add: inDirectory_def)
next
  case False
  have a: "prefix d (d @ CHR ''/'' # rest)" by simp
  have b: "prefix (d @ ''/'') (d @ CHR ''/'' # rest)" by simp
  have c: "d = ''.'' \<Longrightarrow> hd (d @ CHR ''/'' # rest) \<noteq> CHR ''/''" by simp
  from False a b c show ?thesis
    unfolding inDirectory_def by simp
qed

lemma inDirectory_filepathDir:
  assumes "CHR ''/'' \<in> set p"
  shows "inDirectory (filepathDir p) (p @ s)"
proof -
  from split_list_last [OF assms] obtain d base where
    p: "p = d @ CHR ''/'' # base" and nb: "CHR ''/'' \<notin> set base"
    by blast
  have "inDirectory (if d = [] then ''/'' else d) (d @ CHR ''/'' # (base @ s))"
    by (rule inDirectory_below)
  then show ?thesis
    unfolding p filepathDir_split [OF nb] by simp
qed

text \<open>
  The archive that a successful rotation has just made is in the archive set of the next
  scan, when the clock reads a timestamp that parses and the live path is absolute.
\<close>

lemma rotate_archive_in_archives:
  assumes rot: "rotate r0 w0 = (None, r, w)"
    and stamp: "timeParse env (clock w0 (ticks w0))"
    and nodot: "CHR ''.'' \<notin> set (clock w0 (ticks w0))"
    and abs: "CHR ''/'' \<in> set (fileName r0)"
  shows "fileName r0 @ ''.'' @ clock w0 (ticks w0) \<in> set (archives env r w)"
proof -
  let ?a = "fileName r0 @ ''.'' @ clock w0 (ticks w0)"
  from rotate_success_files [OF rot] have fn: "fileName r = fileName r0"
    and mem: "?a \<in> set (map fst (files w))"
    by simp_all
  have 1: "inDirectory (filepathDir (fileName r)) ?a"
    unfolding fn by (rule inDirectory_filepathDir [OF abs])
  have 2: "stringsHasPrefix ?a (fileName r)"
    unfolding fn by (simp add: stringsHasPrefix_def)
  have 3: "last (stringsSplit (CHR ''.'') ?a) = clock w0 (ticks w0)"
    using last_stringsSplit_suffix [OF nodot, of "fileName r0"] by simp
  from mem 1 2 3 stamp show ?thesis
    by (simp add: archives_def isArchive_def)
qed

section \<open>The trimming loop and the scan\<close>

lemma fold_walkFn: "fold (walkFn env r) ps acc = acc @ filter (isArchive env r) ps"
  by (induction ps arbitrary: acc) (auto simp: walkFn_def isArchive_def)

lemma filter_unlink:
  "filter (\<lambda>entry. fst entry \<notin> set qs) (unlink p fs) = filter (\<lambda>entry. fst entry \<notin> set (p # qs)) fs"
  by (induction fs) (auto simp: unlink_def)

lemma deleteLoop_result:
  "deleteLoop m ps w = (res, w') \<Longrightarrow>
     \<exists>k \<le> length ps.
       files w' = filter (\<lambda>entry. fst entry \<notin> set (take k ps)) (files w) \<and>
       (case res of
          Inr None \<Rightarrow>
            trace w' = trace w @ map (\<lambda>p. OsRemove p None) (take k ps) \<and>
            int (length ps) - int k \<le> m \<and> (0 < k \<longrightarrow> int (length ps) - int k = m)
        | Inr (Some e) \<Rightarrow>
            k < length ps \<and> m < int (length ps) - int k \<and>
            trace w' = trace w @ map (\<lambda>p. OsRemove p None) (take k ps) @ [OsRemove (ps ! k) (Some e)]
        | Inl pn \<Rightarrow>
            pn = PanicIndex \<and> k = length ps \<and> m < 0 \<and>
            trace w' = trace w @ map (\<lambda>p. OsRemove p None) ps)"
proof (induction ps arbitrary: w)
  case Nil
  then show ?case by (auto split: if_splits)
next
  case (Cons p ps)
  show ?case
  proof (cases "int (length (p # ps)) > m")
    case False
    with Cons.prems have "res = Inr None" "w' = w" by auto
    with False show ?thesis by (intro exI [of _ 0]) auto
  next
    case True
    obtain err w1 where rm: "osRemove p w = (err, w1)" by (metis prod.exhaust)
    note rr = osRemove_result [OF rm]
    show ?thesis
    proof (cases err)
      case (Some e)
      with True Cons.prems rm have "res = Inr (Some e)" "w' = w1" by auto
      with True rr Some show ?thesis by (intro exI [of _ 0]) auto
    next
      case None
      with True Cons.prems rm have "deleteLoop m ps w1 = (res, w')" by auto
      from Cons.IH [OF this] obtain k where k: "k \<le> length ps"
        "files w' = filter (\<lambda>entry. fst entry \<notin> set (take k ps)) (files w1)"
        "(case res of
          Inr None \<Rightarrow>
            trace w' = trace w1 @ map (\<lambda>p. OsRemove p None) (take k ps) \<and>
            int (length ps) - int k \<le> m \<and> (0 < k \<longrightarrow> int (length ps) - int k = m)
        | Inr (Some e) \<Rightarrow>
            k < length ps \<and> m < int (length ps) - int k \<and>
            trace w' = trace w1 @ map (\<lambda>p. OsRemove p None) (take k ps) @ [OsRemove (ps ! k) (Some e)]
        | Inl pn \<Rightarrow>
            pn = PanicIndex \<and> k = length ps \<and> m < 0 \<and>
            trace w' = trace w1 @ map (\<lambda>p. OsRemove p None) ps)"
        by blast
      have f: "files w' = filter (\<lambda>entry. fst entry \<notin> set (take (Suc k) (p # ps))) (files w)"
        using k(2) rr(3) None by (simp add: filter_unlink)
      have t1: "trace w1 = trace w @ [OsRemove p None]" using rr(1) None by simp
      show ?thesis
      proof (intro exI [of _ "Suc k"] conjI)
        show "Suc k \<le> length (p # ps)" using k(1) by simp
        show "files w' = filter (\<lambda>entry. fst entry \<notin> set (take (Suc k) (p # ps))) (files w)"
          by (rule f)
        show "case res of
          Inl pn \<Rightarrow> pn = PanicIndex \<and> Suc k = length (p # ps) \<and> m < 0 \<and>
            trace w' = trace w @ map (\<lambda>p. OsRemove p None) (p # ps)
        | Inr None \<Rightarrow>
            trace w' = trace w @ map (\<lambda>p. OsRemove p None) (take (Suc k) (p # ps)) \<and>
            int (length (p # ps)) - int (Suc k) \<le> m \<and>
            (0 < Suc k \<longrightarrow> int (length (p # ps)) - int (Suc k) = m)
        | Inr (Some e) \<Rightarrow>
            Suc k < length (p # ps) \<and> m < int (length (p # ps)) - int (Suc k) \<and>
            trace w' = trace w @ map (\<lambda>p. OsRemove p None) (take (Suc k) (p # ps))
               @ [OsRemove ((p # ps) ! Suc k) (Some e)]"
        proof (cases res)
          case (Inl pn)
          with k(3) t1 show ?thesis by simp
        next
          case (Inr oe)
          show ?thesis
          proof (cases oe)
            case None
            with Inr k(3) t1 True k(1) show ?thesis by (cases "k = 0") auto
          next
            case (Some e)
            with Inr k(3) t1 show ?thesis by simp
          qed
        qed
      qed
    qed
  qed
qed

lemma filter_notin_take:
  assumes "distinct xs"
  shows "filter (\<lambda>x. x \<notin> set (take k xs)) xs = drop k xs"
proof -
  have "distinct (take k xs @ drop k xs)" using assms by simp
  then have dj: "\<And>x. x \<in> set (drop k xs) \<Longrightarrow> x \<notin> set (take k xs)"
    unfolding distinct_append by blast
  have "filter (\<lambda>x. x \<notin> set (take k xs)) (take k xs @ drop k xs)
        = filter (\<lambda>x. x \<notin> set (take k xs)) (take k xs) @ filter (\<lambda>x. x \<notin> set (take k xs)) (drop k xs)"
    by (rule filter_append)
  also have "filter (\<lambda>x. x \<notin> set (take k xs)) (take k xs) = []"
    by (simp add: filter_empty_conv)
  also have "filter (\<lambda>x. x \<notin> set (take k xs)) (drop k xs) = drop k xs"
    by (rule filter_True) (simp add: dj)
  finally show ?thesis by simp
qed

lemma map_fst_filter:
  "map fst (filter (\<lambda>entry. P (fst entry)) fs) = filter P (map fst fs)"
  by (induction fs) auto

lemma filter_swap: "filter P (filter Q xs) = filter Q (filter P xs)"
  by (induction xs) auto

lemma archives_after_removal:
  assumes "files w' = filter (\<lambda>entry. fst entry \<notin> S) (files w)"
  shows "archives env r w' = filter (\<lambda>p. p \<notin> S) (archives env r w)"
proof -
  let ?D = "inDirectory (filepathDir (fileName r))"
  let ?N = "\<lambda>p. p \<notin> S"
  have "map fst (files w') = filter ?N (map fst (files w))"
    unfolding assms by (rule map_fst_filter)
  then have "archives env r w' = filter (isArchive env r) (filter ?D (filter ?N (map fst (files w))))"
    unfolding archives_def by (rule arg_cong)
  also have "filter ?D (filter ?N (map fst (files w))) = filter ?N (filter ?D (map fst (files w)))"
    by (rule filter_swap)
  also have "filter (isArchive env r) (filter ?N (filter ?D (map fst (files w))))
             = filter ?N (filter (isArchive env r) (filter ?D (map fst (files w))))"
    by (rule filter_swap)
  finally show ?thesis unfolding archives_def .
qed

lemma distinct_archives: "distinct (map fst (files w)) \<Longrightarrow> distinct (archives env r w)"
  by (simp add: archives_def)

lemma archives_isArchive: "p \<in> set (archives env r w) \<Longrightarrow> isArchive env r p"
  by (simp add: archives_def)

lemma map_of_filter_fst:
  "map_of (filter (\<lambda>entry. fst entry \<notin> S) fs) p = (if p \<in> S then None else map_of fs p)"
  by (induction fs) auto

lemma deleteOld_result:
  assumes "deleteOld env r w = (res, w')"
  shows "(\<exists>e. res = Inr (Some e) \<and> files w' = files w \<and>
              trace w' = trace w @ [CallDeleteOld, OsWalk (filepathDir (fileName r)) (Some e)])
       \<or> (\<exists>w1. files w1 = files w \<and>
              trace w1 = trace w @ [CallDeleteOld, OsWalk (filepathDir (fileName r)) None] \<and>
              deleteLoop (maxCount r) (archives env r w) w1 = (res, w'))"
proof -
  obtain wres w1 where
    wk: "osWalk (filepathDir (fileName r)) (emit CallDeleteOld w) = (wres, w1)"
    by (metis prod.exhaust)
  note wr = osWalk_result [OF wk]
  show ?thesis
  proof (cases wres)
    case (Inl e)
    with assms wk wr(1) wr(4) [OF Inl] show ?thesis
      by (auto simp: deleteOld_def emit_def)
  next
    case (Inr ps)
    from wr(5) [OF Inr] have
      t: "trace w1 = trace w @ [CallDeleteOld, OsWalk (filepathDir (fileName r)) None]"
      and ps: "ps = filter (inDirectory (filepathDir (fileName r))) (map fst (files w))"
      by (simp_all add: emit_def)
    have "fold (walkFn env r) ps [] = archives env r w"
      by (simp add: fold_walkFn archives_def ps)
    with assms wk Inr have "deleteLoop (maxCount r) (archives env r w) w1 = (res, w')"
      by (simp add: deleteOld_def)
    with t wr(1) show ?thesis by (auto simp: emit_def)
  qed
qed

lemma deleteOld_shape:
  assumes "deleteOld env r w = (res, w')"
  shows "(\<exists>e. res = Inr (Some e) \<and> files w' = files w \<and>
              since w w' = [CallDeleteOld, OsWalk (filepathDir (fileName r)) (Some e)])
       \<or> (\<exists>k tl. k \<le> length (archives env r w) \<and>
              files w' = filter (\<lambda>entry. fst entry \<notin> set (take k (archives env r w))) (files w) \<and>
              since w w' = [CallDeleteOld, OsWalk (filepathDir (fileName r)) None]
                 @ map (\<lambda>p. OsRemove p None) (take k (archives env r w)) @ tl \<and>
              (case res of
                 Inr None \<Rightarrow> tl = []
               | Inr (Some e) \<Rightarrow>
                   k < length (archives env r w) \<and> tl = [OsRemove (archives env r w ! k) (Some e)]
               | Inl pn \<Rightarrow> tl = [] \<and> pn = PanicIndex \<and> k = length (archives env r w)))"
proof -
  let ?A = "archives env r w"
  from deleteOld_result [OF assms] show ?thesis
  proof (elim disjE exE conjE)
    fix e
    assume "res = Inr (Some e)" "files w' = files w"
      "trace w' = trace w @ [CallDeleteOld, OsWalk (filepathDir (fileName r)) (Some e)]"
    then show ?thesis by (simp add: since_append)
  next
    fix w1
    assume f1: "files w1 = files w"
      and t1: "trace w1 = trace w @ [CallDeleteOld, OsWalk (filepathDir (fileName r)) None]"
      and lp: "deleteLoop (maxCount r) ?A w1 = (res, w')"
    from deleteLoop_result [OF lp] obtain k where k: "k \<le> length ?A"
      and fk: "files w' = filter (\<lambda>entry. fst entry \<notin> set (take k ?A)) (files w)"
      and c: "(case res of
          Inr None \<Rightarrow>
            trace w' = trace w1 @ map (\<lambda>p. OsRemove p None) (take k ?A) \<and>
            int (length ?A) - int k \<le> maxCount r \<and> (0 < k \<longrightarrow> int (length ?A) - int k = maxCount r)
        | Inr (Some e) \<Rightarrow>
            k < length ?A \<and> maxCount r < int (length ?A) - int k \<and>
            trace w' = trace w1 @ map (\<lambda>p. OsRemove p None) (take k ?A) @ [OsRemove (?A ! k) (Some e)]
        | Inl pn \<Rightarrow>
            pn = PanicIndex \<and> k = length ?A \<and> maxCount r < 0 \<and>
            trace w' = trace w1 @ map (\<lambda>p. OsRemove p None) ?A)"
      using f1 by auto
    show ?thesis
    proof (cases res)
      case (Inl pn)
      with c t1 have "since w w' = [CallDeleteOld, OsWalk (filepathDir (fileName r)) None]
                 @ map (\<lambda>p. OsRemove p None) (take k ?A) @ []"
        by (intro since_append) simp
      with Inl c k fk show ?thesis by (intro disjI2 exI [of _ k] exI [of _ "[]"]) simp
    next
      case (Inr oe)
      show ?thesis
      proof (cases oe)
        case None
        with Inr c t1 have "since w w' = [CallDeleteOld, OsWalk (filepathDir (fileName r)) None]
                 @ map (\<lambda>p. OsRemove p None) (take k ?A) @ []"
          by (intro since_append) simp
        with Inr None k fk show ?thesis by (intro disjI2 exI [of _ k] exI [of _ "[]"]) simp
      next
        case (Some e)
        with Inr c t1 have "since w w' = [CallDeleteOld, OsWalk (filepathDir (fileName r)) None]
                 @ map (\<lambda>p. OsRemove p None) (take k ?A) @ [OsRemove (?A ! k) (Some e)]"
          by (intro since_append) simp
        with Inr Some k fk c show ?thesis
          by (intro disjI2 exI [of _ k] exI [of _ "[OsRemove (?A ! k) (Some e)]"]) simp
      qed
    qed
  qed
qed

lemma deleteOld_trace: "deleteOld env r w = (res, w') \<Longrightarrow> trace w' = trace w @ since w w'"
proof -
  assume a: "deleteOld env r w = (res, w')"
  from deleteOld_result [OF a] have "length (trace w) \<le> length (trace w')"
    by (auto dest!: deleteLoop_result split: sum.splits option.splits)
  moreover from deleteOld_result [OF a] have "take (length (trace w)) (trace w') = trace w"
    by (auto dest!: deleteLoop_result split: sum.splits option.splits)
  ultimately show ?thesis
    unfolding since_def by (metis append_take_drop_id)
qed

lemma deleteOld_events:
  assumes "deleteOld env r w = (res, w')"
  shows "\<exists>evs. trace w' = trace w @ CallDeleteOld # evs \<and> list_all fromScan evs \<and>
           (\<forall>e. (\<exists>d. OsWalk d (Some e) \<in> set evs) \<or> (\<exists>q. OsRemove q (Some e) \<in> set evs)
                 \<longrightarrow> res = Inr (Some e))"
proof -
  let ?A = "archives env r w"
  note tr = deleteOld_trace [OF assms]
  from deleteOld_shape [OF assms] show ?thesis
  proof (elim disjE exE conjE)
    fix e
    assume "res = Inr (Some e)"
      "since w w' = [CallDeleteOld, OsWalk (filepathDir (fileName r)) (Some e)]"
    with tr show ?thesis by simp
  next
    fix k tl
    assume k: "k \<le> length ?A"
      and sn: "since w w' = [CallDeleteOld, OsWalk (filepathDir (fileName r)) None]
                 @ map (\<lambda>p. OsRemove p None) (take k ?A) @ tl"
      and c: "(case res of
                 Inr None \<Rightarrow> tl = []
               | Inr (Some e) \<Rightarrow> k < length ?A \<and> tl = [OsRemove (?A ! k) (Some e)]
               | Inl pn \<Rightarrow> tl = [] \<and> pn = PanicIndex \<and> k = length ?A)"
    let ?evs = "OsWalk (filepathDir (fileName r)) None
                  # map (\<lambda>p. OsRemove p None) (take k ?A) @ tl"
    from c have tl: "tl = [] \<or> (\<exists>e. res = Inr (Some e) \<and> tl = [OsRemove (?A ! k) (Some e)])"
      by (auto split: sum.splits option.splits)
    have 1: "trace w' = trace w @ CallDeleteOld # ?evs" using tr sn by simp
    have 2: "list_all fromScan ?evs" using tl by (auto simp: list_all_iff)
    have 3: "\<forall>e. (\<exists>d. OsWalk d (Some e) \<in> set ?evs) \<or> (\<exists>q. OsRemove q (Some e) \<in> set ?evs)
                 \<longrightarrow> res = Inr (Some e)"
      using tl by auto
    from 1 2 3 show ?thesis by blast
  qed
qed

section \<open>Retention\<close>

text \<open>
  C3. Whenever \<open>deleteOld\<close> completes without error: if the scan discovered more than
  \<open>maxCount\<close> archives, it has removed them one at a time from the front of the list as
  discovered (the removals in the trace are that front, in order), exactly \<open>maxCount\<close> are
  left, and a scan of the directory afterwards finds the rest of the list; if the scan
  discovered \<open>maxCount\<close> archives or fewer, nothing is deleted; with \<open>maxCount = 0\<close> every
  archive that was discovered is gone, the one that a rotation has just made among them.
  The files of the directory have distinct paths.
\<close>

theorem deleteOld_trims_to_maxCount:
  assumes ok: "deleteOld env r w = (Inr None, w')"
    and dist: "distinct (map fst (files w))"
  shows "(maxCount r < int (length (archives env r w)) \<longrightarrow>
            0 \<le> maxCount r \<and>
            since w w' = [CallDeleteOld, OsWalk (filepathDir (fileName r)) None]
               @ map (\<lambda>p. OsRemove p None)
                   (take (length (archives env r w) - nat (maxCount r)) (archives env r w)) \<and>
            files w' = filter (\<lambda>entry. fst entry \<notin>
                 set (take (length (archives env r w) - nat (maxCount r)) (archives env r w)))
                 (files w) \<and>
            archives env r w' =
              drop (length (archives env r w) - nat (maxCount r)) (archives env r w) \<and>
            int (length (archives env r w')) = maxCount r)
       \<and> (int (length (archives env r w)) \<le> maxCount r \<longrightarrow>
            files w' = files w \<and>
            since w w' = [CallDeleteOld, OsWalk (filepathDir (fileName r)) None])
       \<and> (maxCount r = 0 \<longrightarrow>
            archives env r w' = [] \<and>
            (\<forall>p \<in> set (archives env r w). fileSize w' p = None) \<and>
            (\<forall>r0 w0.
                rotate r0 w0 = (None, r, w) \<and> timeParse env (clock w0 (ticks w0)) \<and>
                CHR ''.'' \<notin> set (clock w0 (ticks w0)) \<and> CHR ''/'' \<in> set (fileName r0)
                \<longrightarrow> fileSize w' (fileName r0 @ ''.'' @ clock w0 (ticks w0)) = None))"
proof -
  let ?A = "archives env r w"
  from deleteOld_result [OF ok] obtain w1 where
    f1: "files w1 = files w"
    and t1: "trace w1 = trace w @ [CallDeleteOld, OsWalk (filepathDir (fileName r)) None]"
    and lp: "deleteLoop (maxCount r) ?A w1 = (Inr None, w')"
    by auto
  from deleteLoop_result [OF lp] obtain k where k: "k \<le> length ?A"
    and fk: "files w' = filter (\<lambda>entry. fst entry \<notin> set (take k ?A)) (files w)"
    and tk: "trace w' = trace w1 @ map (\<lambda>p. OsRemove p None) (take k ?A)"
    and le: "int (length ?A) - int k \<le> maxCount r"
    and eq: "0 < k \<longrightarrow> int (length ?A) - int k = maxCount r"
    using f1 by auto
  have sn: "since w w' = [CallDeleteOld, OsWalk (filepathDir (fileName r)) None]
              @ map (\<lambda>p. OsRemove p None) (take k ?A)"
    using tk t1 by (intro since_append) simp
  have "archives env r w' = filter (\<lambda>p. p \<notin> set (take k ?A)) ?A"
    by (rule archives_after_removal [OF fk])
  also have "\<dots> = drop k ?A"
    by (rule filter_notin_take [OF distinct_archives [OF dist]])
  finally have ar: "archives env r w' = drop k ?A" .
  have big: "maxCount r < int (length ?A) \<Longrightarrow>
               0 \<le> maxCount r \<and> k = length ?A - nat (maxCount r)"
    using k le eq by (cases "k = 0") auto
  have small: "int (length ?A) \<le> maxCount r \<Longrightarrow> k = 0"
    using k eq by (cases "k = 0") auto
  have zero: "maxCount r = 0 \<Longrightarrow> k = length ?A"
    using k le by simp
  have gone: "maxCount r = 0 \<Longrightarrow> \<forall>p \<in> set ?A. fileSize w' p = None"
    using zero fk by (simp add: fileSize_def map_of_filter_fst)
  show ?thesis
  proof (intro conjI impI)
    assume b: "maxCount r < int (length ?A)"
    from big [OF b] have k': "k = length ?A - nat (maxCount r)" and nn: "0 \<le> maxCount r"
      by simp_all
    show "0 \<le> maxCount r" by (rule nn)
    show "since w w' = [CallDeleteOld, OsWalk (filepathDir (fileName r)) None]
               @ map (\<lambda>p. OsRemove p None) (take (length ?A - nat (maxCount r)) ?A)"
      using sn k' by simp
    show "files w' = filter (\<lambda>entry. fst entry \<notin>
                 set (take (length ?A - nat (maxCount r)) ?A)) (files w)"
      using fk k' by simp
    show "archives env r w' = drop (length ?A - nat (maxCount r)) ?A"
      using ar k' by simp
    show "int (length (archives env r w')) = maxCount r"
      using ar k' nn b by simp
  next
    assume s: "int (length ?A) \<le> maxCount r"
    show "files w' = files w" using fk small [OF s] by simp
    show "since w w' = [CallDeleteOld, OsWalk (filepathDir (fileName r)) None]"
      using sn small [OF s] by simp
  next
    assume z: "maxCount r = 0"
    show "archives env r w' = []" using ar zero [OF z] by simp
    show "\<forall>p \<in> set ?A. fileSize w' p = None" by (rule gone [OF z])
    show "\<forall>r0 w0.
            rotate r0 w0 = (None, r, w) \<and> timeParse env (clock w0 (ticks w0)) \<and>
            CHR ''.'' \<notin> set (clock w0 (ticks w0)) \<and> CHR ''/'' \<in> set (fileName r0)
            \<longrightarrow> fileSize w' (fileName r0 @ ''.'' @ clock w0 (ticks w0)) = None"
    proof (intro allI impI)
      fix r0 w0
      assume a: "rotate r0 w0 = (None, r, w) \<and> timeParse env (clock w0 (ticks w0)) \<and>
            CHR ''.'' \<notin> set (clock w0 (ticks w0)) \<and> CHR ''/'' \<in> set (fileName r0)"
      then have "fileName r0 @ ''.'' @ clock w0 (ticks w0) \<in> set ?A"
        by (intro rotate_archive_in_archives) simp_all
      with gone [OF z] show "fileSize w' (fileName r0 @ ''.'' @ clock w0 (ticks w0)) = None"
        by blast
    qed
  qed
qed

theorem deleteOld_trims_to_maxCount_witness:
  "deleteOld env0 writerA worldC =
     (Inr None,
      worldC\<lparr>files := [(''/log/app'', ''abc''),
                       (''/log/app.2007-01-02T15:04:05Z'', ''new''),
                       (''/log/app.bak'', ''x'')],
             trace := [CallDeleteOld, OsWalk ''/log'' None,
                       OsRemove ''/log/app.2006-01-02T15:04:05Z'' None]\<rparr>) \<and>
   distinct (map fst (files worldC)) \<and>
   maxCount writerA < int (length (archives env0 writerA worldC)) \<and>
   archives env0 writerA
     (worldC\<lparr>files := [(''/log/app'', ''abc''),
                       (''/log/app.2007-01-02T15:04:05Z'', ''new''),
                       (''/log/app.bak'', ''x'')],
             trace := [CallDeleteOld, OsWalk ''/log'' None,
                       OsRemove ''/log/app.2006-01-02T15:04:05Z'' None]\<rparr>)
     = [''/log/app.2007-01-02T15:04:05Z'']"
proof -
  have run: "deleteOld env0 writerA worldC =
     (Inr None,
      worldC\<lparr>files := [(''/log/app'', ''abc''),
                       (''/log/app.2007-01-02T15:04:05Z'', ''new''),
                       (''/log/app.bak'', ''x'')],
             trace := [CallDeleteOld, OsWalk ''/log'' None,
                       OsRemove ''/log/app.2006-01-02T15:04:05Z'' None]\<rparr>)"
    by (simp add: deleteOld_def walkFn_def writerA_def worldC_def os_defs inst_defs)
  have dist: "distinct (map fst (files worldC))"
    by (simp add: worldC_def)
  have arc: "archives env0 writerA worldC =
               [''/log/app.2006-01-02T15:04:05Z'', ''/log/app.2007-01-02T15:04:05Z'']"
    by (simp add: archives_def isArchive_def writerA_def worldC_def os_defs inst_defs)
  have more: "maxCount writerA < int (length (archives env0 writerA worldC))"
    by (simp add: arc) (simp add: writerA_def)
  from deleteOld_trims_to_maxCount [OF run dist] more
  have "archives env0 writerA
     (worldC\<lparr>files := [(''/log/app'', ''abc''),
                       (''/log/app.2007-01-02T15:04:05Z'', ''new''),
                       (''/log/app.bak'', ''x'')],
             trace := [CallDeleteOld, OsWalk ''/log'' None,
                       OsRemove ''/log/app.2006-01-02T15:04:05Z'' None]\<rparr>)
     = drop (length (archives env0 writerA worldC) - nat (maxCount writerA))
         (archives env0 writerA worldC)"
    by blast
  also have "\<dots> = [''/log/app.2007-01-02T15:04:05Z'']"
    by (simp add: arc) (simp add: writerA_def)
  finally show ?thesis using run dist more by blast
qed

text \<open>
  C10. \<open>deleteOld\<close> walks the directory before it deletes anything: the walk is the first
  call of its trace, and the removals that follow are a front of the archive list of the
  directory as it was before the call, in the order of discovery, all of them successful
  but possibly the last. If the walk returns an error, \<open>deleteOld\<close> returns that error, its
  trace ends with the walk and the files are what they were.
\<close>

theorem deleteOld_scans_before_deleting:
  assumes run: "deleteOld env r w = (res, w')"
  shows "(\<exists>e. res = Inr (Some e) \<and> files w' = files w \<and>
              since w w' = [CallDeleteOld, OsWalk (filepathDir (fileName r)) (Some e)])
       \<or> (\<exists>k tl. k \<le> length (archives env r w) \<and>
              since w w' = [CallDeleteOld, OsWalk (filepathDir (fileName r)) None]
                 @ map (\<lambda>p. OsRemove p None) (take k (archives env r w)) @ tl \<and>
              (tl = [] \<or> (\<exists>e. k < length (archives env r w) \<and> res = Inr (Some e) \<and>
                             tl = [OsRemove (archives env r w ! k) (Some e)])))"
proof -
  let ?A = "archives env r w"
  from deleteOld_shape [OF run] show ?thesis
  proof (elim disjE exE conjE)
    fix e
    assume "res = Inr (Some e)" "files w' = files w"
      "since w w' = [CallDeleteOld, OsWalk (filepathDir (fileName r)) (Some e)]"
    then show ?thesis by blast
  next
    fix k tl
    assume k: "k \<le> length ?A"
      and sn: "since w w' = [CallDeleteOld, OsWalk (filepathDir (fileName r)) None]
                 @ map (\<lambda>p. OsRemove p None) (take k ?A) @ tl"
      and c: "(case res of
                 Inr None \<Rightarrow> tl = []
               | Inr (Some e) \<Rightarrow> k < length ?A \<and> tl = [OsRemove (?A ! k) (Some e)]
               | Inl pn \<Rightarrow> tl = [] \<and> pn = PanicIndex \<and> k = length ?A)"
    from c have "tl = [] \<or> (\<exists>e. k < length ?A \<and> res = Inr (Some e) \<and>
                             tl = [OsRemove (?A ! k) (Some e)])"
      by (auto split: sum.splits option.splits)
    with k sn show ?thesis by blast
  qed
qed

theorem deleteOld_scans_before_deleting_witness:
  "deleteOld env0 (writerA\<lparr>maxCount := 0\<rparr>) worldC =
     (Inr None,
      worldC\<lparr>files := [(''/log/app'', ''abc''), (''/log/app.bak'', ''x'')],
             trace := [CallDeleteOld, OsWalk ''/log'' None,
                       OsRemove ''/log/app.2006-01-02T15:04:05Z'' None,
                       OsRemove ''/log/app.2007-01-02T15:04:05Z'' None]\<rparr>) \<and>
   deleteOld env0 writerA (worldC\<lparr>script := [Some Fault]\<rparr>) =
     (Inr (Some ErrIO),
      worldC\<lparr>script := [], trace := [CallDeleteOld, OsWalk ''/log'' (Some ErrIO)]\<rparr>)"
proof -
  let ?w = "worldC\<lparr>script := [Some Fault]\<rparr>"
  let ?X = "deleteOld env0 writerA ?w"
  have run1: "deleteOld env0 (writerA\<lparr>maxCount := 0\<rparr>) worldC =
     (Inr None,
      worldC\<lparr>files := [(''/log/app'', ''abc''), (''/log/app.bak'', ''x'')],
             trace := [CallDeleteOld, OsWalk ''/log'' None,
                       OsRemove ''/log/app.2006-01-02T15:04:05Z'' None,
                       OsRemove ''/log/app.2007-01-02T15:04:05Z'' None]\<rparr>)"
    by (simp add: deleteOld_def walkFn_def writerA_def worldC_def os_defs inst_defs)
  have wx: "snd ?X = worldC\<lparr>script := [], trace := [CallDeleteOld, OsWalk ''/log'' (Some ErrIO)]\<rparr>"
    by (simp add: deleteOld_def walkFn_def writerA_def worldC_def os_defs inst_defs)
  have sn: "since ?w (snd ?X) = [CallDeleteOld, OsWalk ''/log'' (Some ErrIO)]"
    unfolding wx by (simp add: since_def worldC_def)
  have px: "?X = (fst ?X, snd ?X)" by simp
  from deleteOld_scans_before_deleting [OF px]
  have "fst ?X = Inr (Some ErrIO)"
    unfolding sn by auto
  with wx have "?X = (Inr (Some ErrIO),
      worldC\<lparr>script := [], trace := [CallDeleteOld, OsWalk ''/log'' (Some ErrIO)]\<rparr>)"
    by (metis prod.collapse)
  with run1 show ?thesis by blast
qed

text \<open>
  C8. When a removal inside the trimming loop of \<open>deleteOld\<close> fails, the failed removal is
  the last call of the trace (the loop stops there) and its error is what \<open>deleteOld\<close>
  returns; the archives removed before it, the front of the list up to the failed one, stay
  removed, and every other file is as it was.
\<close>

theorem deleteOld_stops_at_failed_remove:
  assumes run: "deleteOld env r w = (res, w')"
    and failed: "OsRemove p (Some e) \<in> set (since w w')"
  shows "res = Inr (Some e) \<and>
         (\<exists>k < length (archives env r w).
            archives env r w ! k = p \<and>
            since w w' = [CallDeleteOld, OsWalk (filepathDir (fileName r)) None]
               @ map (\<lambda>q. OsRemove q None) (take k (archives env r w))
               @ [OsRemove p (Some e)] \<and>
            (\<forall>q \<in> set (take k (archives env r w)). fileSize w' q = None) \<and>
            (\<forall>q. q \<notin> set (take k (archives env r w)) \<longrightarrow> map_of (files w') q = map_of (files w) q))"
proof -
  let ?A = "archives env r w"
  from deleteOld_shape [OF run] failed obtain k tl where k: "k \<le> length ?A"
    and fk: "files w' = filter (\<lambda>entry. fst entry \<notin> set (take k ?A)) (files w)"
    and sn: "since w w' = [CallDeleteOld, OsWalk (filepathDir (fileName r)) None]
                 @ map (\<lambda>p. OsRemove p None) (take k ?A) @ tl"
    and c: "(case res of
                 Inr None \<Rightarrow> tl = []
               | Inr (Some e) \<Rightarrow> k < length ?A \<and> tl = [OsRemove (?A ! k) (Some e)]
               | Inl pn \<Rightarrow> tl = [] \<and> pn = PanicIndex \<and> k = length ?A)"
    by auto
  from failed sn have intl: "OsRemove p (Some e) \<in> set tl" by auto
  with c have r: "res = Inr (Some e)" and kl: "k < length ?A" and p: "?A ! k = p"
    and tl: "tl = [OsRemove p (Some e)]"
    by (auto split: sum.splits option.splits)
  have g: "\<forall>q \<in> set (take k ?A). fileSize w' q = None"
    by (simp add: fileSize_def fk map_of_filter_fst)
  have s: "\<forall>q. q \<notin> set (take k ?A) \<longrightarrow> map_of (files w') q = map_of (files w) q"
    by (simp add: fk map_of_filter_fst)
  from r kl p sn tl g s show ?thesis by blast
qed

theorem deleteOld_stops_at_failed_remove_witness:
  "deleteOld env0 (writerA\<lparr>maxCount := 0\<rparr>) (worldC\<lparr>script := [None, None, Some Fault]\<rparr>) =
     (Inr (Some ErrIO),
      worldC\<lparr>files := [(''/log/app'', ''abc''),
                       (''/log/app.2007-01-02T15:04:05Z'', ''new''),
                       (''/log/app.bak'', ''x'')],
             script := [],
             trace := [CallDeleteOld, OsWalk ''/log'' None,
                       OsRemove ''/log/app.2006-01-02T15:04:05Z'' None,
                       OsRemove ''/log/app.2007-01-02T15:04:05Z'' (Some ErrIO)]\<rparr>)"
proof -
  let ?w = "worldC\<lparr>script := [None, None, Some Fault]\<rparr>"
  let ?X = "deleteOld env0 (writerA\<lparr>maxCount := 0\<rparr>) ?w"
  have wx: "snd ?X = worldC\<lparr>files := [(''/log/app'', ''abc''),
                       (''/log/app.2007-01-02T15:04:05Z'', ''new''),
                       (''/log/app.bak'', ''x'')],
             script := [],
             trace := [CallDeleteOld, OsWalk ''/log'' None,
                       OsRemove ''/log/app.2006-01-02T15:04:05Z'' None,
                       OsRemove ''/log/app.2007-01-02T15:04:05Z'' (Some ErrIO)]\<rparr>"
    by (simp add: deleteOld_def walkFn_def writerA_def worldC_def os_defs inst_defs)
  have failed: "OsRemove ''/log/app.2007-01-02T15:04:05Z'' (Some ErrIO) \<in> set (since ?w (snd ?X))"
    unfolding wx by (simp add: since_def worldC_def)
  have px: "?X = (fst ?X, snd ?X)" by simp
  from deleteOld_stops_at_failed_remove [OF px failed]
  have "fst ?X = Inr (Some ErrIO)" by blast
  with wx show ?thesis by (metis prod.collapse)
qed

text \<open>
  C5, as amended. \<open>deleteOld\<close> never removes an entry whose text after the last \<^verbatim>\<open>.\<close>
  does not parse as an RFC 3339 timestamp, and every such entry is after the call what it
  was before. In particular the live file is outside the archive set and is not deleted,
  provided that the text after the last \<^verbatim>\<open>.\<close> of the live path does not itself parse as a
  timestamp.
\<close>

theorem deleteOld_removes_only_timestamped:
  assumes run: "deleteOld env r w = (res, w')"
  shows "(\<forall>p err. OsRemove p err \<in> set (since w w') \<longrightarrow>
            timeParse env (last (stringsSplit (CHR ''.'') p)))
       \<and> (\<forall>p. \<not> timeParse env (last (stringsSplit (CHR ''.'') p)) \<longrightarrow>
            map_of (files w') p = map_of (files w) p)
       \<and> (\<not> timeParse env (last (stringsSplit (CHR ''.'') (fileName r))) \<longrightarrow>
            fileName r \<notin> set (archives env r w) \<and>
            map_of (files w') (fileName r) = map_of (files w) (fileName r))"
proof -
  let ?A = "archives env r w"
  let ?stamped = "\<lambda>p. timeParse env (last (stringsSplit (CHR ''.'') p))"
  have st: "\<And>p. p \<in> set ?A \<Longrightarrow> ?stamped p"
    using archives_isArchive by (auto simp: isArchive_def)
  have tk: "\<And>p k. p \<in> set (take k ?A) \<Longrightarrow> ?stamped p"
    using st by (meson in_set_takeD)
  have nth: "\<And>k. k < length ?A \<Longrightarrow> ?stamped (?A ! k)"
    using st by simp
  have "(\<forall>p err. OsRemove p err \<in> set (since w w') \<longrightarrow> ?stamped p) \<and>
        (\<forall>p. \<not> ?stamped p \<longrightarrow> map_of (files w') p = map_of (files w) p)"
    using deleteOld_shape [OF run]
  proof (elim disjE exE conjE)
    fix e
    assume "files w' = files w"
      "since w w' = [CallDeleteOld, OsWalk (filepathDir (fileName r)) (Some e)]"
    then show ?thesis by simp
  next
    fix k tl
    assume k: "k \<le> length ?A"
      and fk: "files w' = filter (\<lambda>entry. fst entry \<notin> set (take k ?A)) (files w)"
      and sn: "since w w' = [CallDeleteOld, OsWalk (filepathDir (fileName r)) None]
                 @ map (\<lambda>p. OsRemove p None) (take k ?A) @ tl"
      and c: "(case res of
                 Inr None \<Rightarrow> tl = []
               | Inr (Some e) \<Rightarrow> k < length ?A \<and> tl = [OsRemove (?A ! k) (Some e)]
               | Inl pn \<Rightarrow> tl = [] \<and> pn = PanicIndex \<and> k = length ?A)"
    from c have tl: "tl = [] \<or> (\<exists>e. k < length ?A \<and> tl = [OsRemove (?A ! k) (Some e)])"
      by (auto split: sum.splits option.splits)
    have "\<And>p err. OsRemove p err \<in> set tl \<Longrightarrow> ?stamped p"
      using tl nth by auto
    moreover have "\<And>p err. OsRemove p err \<in> set (map (\<lambda>p. OsRemove p None) (take k ?A))
                     \<Longrightarrow> ?stamped p"
      using tk by auto
    ultimately have a: "\<forall>p err. OsRemove p err \<in> set (since w w') \<longrightarrow> ?stamped p"
      unfolding sn by auto
    have "\<forall>p. \<not> ?stamped p \<longrightarrow> map_of (files w') p = map_of (files w) p"
      using tk by (auto simp: fk map_of_filter_fst)
    with a show ?thesis by blast
  qed
  then have ev: "\<forall>p err. OsRemove p err \<in> set (since w w') \<longrightarrow> ?stamped p"
    and keep: "\<forall>p. \<not> ?stamped p \<longrightarrow> map_of (files w') p = map_of (files w) p"
    by blast+
  have live: "\<not> ?stamped (fileName r) \<longrightarrow> fileName r \<notin> set ?A"
    using st by blast
  from ev keep live show ?thesis by blast
qed

theorem deleteOld_removes_only_timestamped_witness:
  "\<not> timeParse env0 (last (stringsSplit (CHR ''.'') (fileName writerA))) \<and>
   \<not> timeParse env0 (last (stringsSplit (CHR ''.'') ''/log/app.bak'')) \<and>
   OsRemove ''/log/app.2006-01-02T15:04:05Z'' None
     \<in> set (since worldC (snd (deleteOld env0 writerA worldC))) \<and>
   map_of (files (snd (deleteOld env0 writerA worldC))) (fileName writerA)
     = map_of (files worldC) (fileName writerA) \<and>
   map_of (files (snd (deleteOld env0 writerA worldC))) ''/log/app.bak''
     = map_of (files worldC) ''/log/app.bak''"
proof -
  let ?X = "deleteOld env0 writerA worldC"
  have live: "\<not> timeParse env0 (last (stringsSplit (CHR ''.'') (fileName writerA)))"
    by (simp add: writerA_def inst_defs)
  have bak: "\<not> timeParse env0 (last (stringsSplit (CHR ''.'') ''/log/app.bak''))"
    by (simp add: inst_defs)
  have rm: "OsRemove ''/log/app.2006-01-02T15:04:05Z'' None \<in> set (since worldC (snd ?X))"
    by (simp add: deleteOld_def walkFn_def since_def writerA_def worldC_def os_defs inst_defs)
  have px: "?X = (fst ?X, snd ?X)" by simp
  note th = deleteOld_removes_only_timestamped [OF px]
  from th live have 1: "map_of (files (snd ?X)) (fileName writerA) = map_of (files worldC) (fileName writerA)"
    by blast
  from th bak have 2: "map_of (files (snd ?X)) ''/log/app.bak'' = map_of (files worldC) ''/log/app.bak''"
    by blast
  from live bak rm 1 2 show ?thesis by blast
qed

text \<open>
  C5 as stated, for every live path, fails: a live file named
  \<^verbatim>\<open>/log/app.2006-01-02T15:04:05Z\<close> is in the archive set of its own writer, and with
  \<open>maxCount = 0\<close> the scan deletes it.
\<close>

theorem live_file_with_timestamp_name_is_deleted:
  "fileSize worldB (fileName writerB) = Some 3 \<and>
   fileName writerB \<in> set (archives env0 writerB worldB) \<and>
   deleteOld env0 writerB worldB =
     (Inr None,
      worldB\<lparr>files := [],
             trace := [CallDeleteOld, OsWalk ''/log'' None,
                       OsRemove ''/log/app.2006-01-02T15:04:05Z'' None]\<rparr>) \<and>
   fileSize (snd (deleteOld env0 writerB worldB)) (fileName writerB) = None"
  by (simp add: deleteOld_def walkFn_def archives_def isArchive_def fileSize_def writerB_def
        worldB_def os_defs inst_defs)

section \<open>Writing\<close>

text \<open>
  C1. A write on a writer that is not closed, whose append succeeds: if \<open>bytesWritten\<close> with
  the count of the append added has reached \<open>maxSize\<close>, exactly one rotation is invoked in
  the call, and when that rotation succeeds \<open>bytesWritten\<close> is zero right after it and when
  the write returns; if it has stayed below \<open>maxSize\<close>, no rotation is invoked and
  \<open>bytesWritten\<close> is the sum.
\<close>

theorem writeLine_rotates_once_at_threshold:
  assumes op: "\<not> closed r"
    and ap: "osWriteString (fileHandle r) (formatStandard env logger level line @ [CHR 0x0A]) w
               = (count, None, w1)"
    and run: "writeLine env r logger level line w = (pn, r', w')"
  shows "(maxSize r \<le>s bytesWritten r + of_nat count \<longrightarrow>
            count_list (since w w') CallRotate = 1 \<and>
            (\<forall>r2 w2. rotate (r\<lparr>bytesWritten := bytesWritten r + of_nat count\<rparr>) w1 = (None, r2, w2)
                \<longrightarrow> bytesWritten r2 = 0 \<and> bytesWritten r' = 0))
       \<and> (\<not> maxSize r \<le>s bytesWritten r + of_nat count \<longrightarrow>
            count_list (since w w') CallRotate = 0 \<and>
            bytesWritten r' = bytesWritten r + of_nat count)"
proof -
  let ?s = "formatStandard env logger level line @ [CHR 0x0A]"
  let ?r1 = "r\<lparr>bytesWritten := bytesWritten r + of_nat count\<rparr>"
  have t1: "trace w1 = trace w @ [OsWrite ?s count None]"
    using osWriteString_result(1) [OF ap] .
  show ?thesis
  proof (cases "maxSize r \<le>s bytesWritten r + of_nat count")
    case False
    with op ap run have "r' = ?r1" "w' = w1"
      by (simp_all add: writeLine_def Let_def)
    with t1 False show ?thesis by (simp add: since_append)
  next
    case True
    obtain rerr r2 w2 where rot: "rotate ?r1 w1 = (rerr, r2, w2)"
      by (metis prod_cases3)
    let ?w2 = "case rerr of Some err \<Rightarrow> println ''Failed to rotate log file:'' err w2 | None \<Rightarrow> w2"
    obtain dres w3 where del: "deleteOld env r2 ?w2 = (dres, w3)"
      by (metis prod.exhaust)
    from rotate_events [OF rot] obtain revs where
      t2: "trace w2 = trace w1 @ CallRotate # revs" and q2: "list_all fromRotate revs"
      by blast
    obtain pr1 where t2': "trace ?w2 = trace w2 @ pr1" and p1: "CallRotate \<notin> set pr1"
      by (cases rerr) (auto simp: println_def emit_def)
    from deleteOld_events [OF del] obtain devs where
      t3: "trace w3 = trace ?w2 @ CallDeleteOld # devs" and q3: "list_all fromScan devs"
      by blast
    have r': "r' = r2" and "\<exists>pr2. trace w' = trace w3 @ pr2 \<and> CallRotate \<notin> set pr2"
      using op ap run True rot del
      by (auto simp: writeLine_def Let_def println_def emit_def split: sum.splits option.splits)
    then obtain pr2 where t4: "trace w' = trace w3 @ pr2" and p2: "CallRotate \<notin> set pr2"
      by blast
    have "since w w' = [OsWrite ?s count None] @ CallRotate # revs @ pr1 @ CallDeleteOld # devs @ pr2"
      using t1 t2 t2' t3 t4 by (intro since_append) simp
    then have cnt: "count_list (since w w') CallRotate = 1"
      using list_all_count0 [OF q2, of CallRotate] list_all_count0 [OF q3, of CallRotate]
        count_list_0 [OF p1] count_list_0 [OF p2]
      by simp
    have "\<forall>r2' w2'. rotate ?r1 w1 = (None, r2', w2') \<longrightarrow> bytesWritten r2' = 0 \<and> bytesWritten r' = 0"
      using rot r' rotate_success by auto
    with cnt True show ?thesis by blast
  qed
qed

theorem writeLine_rotates_once_at_threshold_witness:
  "\<not> closed writerA \<and>
   osWriteString (fileHandle writerA) (formatStandard env0 () () ''x'' @ [CHR 0x0A]) worldA
     = (2, None,
        worldA\<lparr>files := [(''/log/app'', ''0123456789x'' @ [CHR 0x0A])],
               trace := [OsWrite (''x'' @ [CHR 0x0A]) 2 None]\<rparr>) \<and>
   maxSize writerA \<le>s bytesWritten writerA + of_nat 2 \<and>
   count_list (since worldA (snd (snd (writeLine env0 writerA () () ''x'' worldA)))) CallRotate = 1 \<and>
   bytesWritten (fst (snd (writeLine env0 writerA () () ''x'' worldA))) = 0"
proof -
  let ?X = "writeLine env0 writerA () () ''x'' worldA"
  have op: "\<not> closed writerA" by (simp add: writerA_def)
  have ap: "osWriteString (fileHandle writerA) (formatStandard env0 () () ''x'' @ [CHR 0x0A]) worldA
     = (2, None,
        worldA\<lparr>files := [(''/log/app'', ''0123456789x'' @ [CHR 0x0A])],
               trace := [OsWrite (''x'' @ [CHR 0x0A]) 2 None]\<rparr>)"
    by (simp add: writerA_def worldA_def os_defs inst_defs)
  have run: "?X = (fst ?X, fst (snd ?X), snd (snd ?X))" by simp
  have thr: "maxSize writerA \<le>s bytesWritten writerA + of_nat 2"
    by (simp add: writerA_def word_sle_eq)
  have rot: "fst (rotate (writerA\<lparr>bytesWritten := bytesWritten writerA + of_nat 2\<rparr>)
               (worldA\<lparr>files := [(''/log/app'', ''0123456789x'' @ [CHR 0x0A])],
                       trace := [OsWrite (''x'' @ [CHR 0x0A]) 2 None]\<rparr>)) = None"
    by (simp add: rotate_def writerA_def worldA_def os_defs)
  from writeLine_rotates_once_at_threshold [OF op ap run] thr
  have c: "count_list (since worldA (snd (snd ?X))) CallRotate = 1"
    and z: "\<forall>r2 w2. rotate (writerA\<lparr>bytesWritten := bytesWritten writerA + of_nat 2\<rparr>)
               (worldA\<lparr>files := [(''/log/app'', ''0123456789x'' @ [CHR 0x0A])],
                       trace := [OsWrite (''x'' @ [CHR 0x0A]) 2 None]\<rparr>) = (None, r2, w2)
             \<longrightarrow> bytesWritten r2 = 0 \<and> bytesWritten (fst (snd ?X)) = 0"
    by blast+
  from z rot have "bytesWritten (fst (snd ?X)) = 0"
    by (metis prod.collapse)
  with op ap thr c show ?thesis by blast
qed

lemma writeLine_closed: "closed r \<Longrightarrow> writeLine env r logger level line w = (None, r, w)"
  by (simp add: writeLine_def)

lemma writeAll_closed: "closed r \<Longrightarrow> writeAll env r calls w = (None, r, w)"
  by (induction calls) (auto simp: writeLine_closed)

text \<open>
  C6. After \<open>close\<close>, the writer is closed, and every write that follows, one or any number
  of them, returns without a panic and leaves the writer (\<open>bytesWritten\<close>, the handle,
  \<open>closed\<close>) and the world (the files and the trace, so no system call was made) as they
  were.
\<close>

theorem write_after_close_is_noop:
  assumes "close r w = (r', w')"
  shows "closed r' \<and>
         writeLine env r' logger level line w' = (None, r', w') \<and>
         writeAll env r' calls w' = (None, r', w')"
proof -
  from assms have "closed r'"
    by (auto simp: close_def split: prod.splits)
  then show ?thesis
    by (simp add: writeLine_closed writeAll_closed)
qed

theorem write_after_close_is_noop_witness:
  "close writerA worldA =
     (writerA\<lparr>fileHandle := File ''/log/app'' False, closed := True\<rparr>,
      worldA\<lparr>trace := [OsClose None]\<rparr>) \<and>
   writeLine env0 (writerA\<lparr>fileHandle := File ''/log/app'' False, closed := True\<rparr>) () () ''x''
      (worldA\<lparr>trace := [OsClose None]\<rparr>)
     = (None, writerA\<lparr>fileHandle := File ''/log/app'' False, closed := True\<rparr>,
        worldA\<lparr>trace := [OsClose None]\<rparr>)"
proof -
  have c: "close writerA worldA =
     (writerA\<lparr>fileHandle := File ''/log/app'' False, closed := True\<rparr>,
      worldA\<lparr>trace := [OsClose None]\<rparr>)"
    by (simp add: close_def writerA_def worldA_def os_defs)
  from write_after_close_is_noop [OF c, of env0 "()" "()" "''x''" "[]"] c
  show ?thesis by blast
qed

text \<open>
  C2 fails on the code. A writer is constructed where no file exists and two lines are
  written, \<^verbatim>\<open>hello\<close> and \<^verbatim>\<open>world\<close>. The first \<^verbatim>\<open>WriteString\<close> returns a count of 3
  together with an error; \<open>write\<close> reports the error and returns before it adds the count.
  The second write succeeds, and after it \<open>bytesWritten\<close> is 6 while the live file holds 9
  bytes.
\<close>

theorem short_write_leaves_bytesWritten_behind:
  "newRollingWriter env0 ''/log/app'' 1 2 worldE =
     (Inr \<lparr>closed = False, fileHandle = File ''/log/app'' True, fileName = ''/log/app'',
           maxSize = 1048576, maxCount = 2, bytesWritten = 0\<rparr>,
      worldE\<lparr>files := [(''/log/app'', [])], script := [Some (ShortWrite 3)],
             trace := [OsStat ''/log/app'' (Some ErrNotExist), OsOpen ''/log/app'' None,
                       CallDeleteOld, OsWalk ''/log'' None]\<rparr>) \<and>
   writeAll env0
      \<lparr>closed = False, fileHandle = File ''/log/app'' True, fileName = ''/log/app'',
        maxSize = 1048576, maxCount = 2, bytesWritten = 0\<rparr>
      [((), (), ''hello''), ((), (), ''world'')]
      (worldE\<lparr>files := [(''/log/app'', [])], script := [Some (ShortWrite 3)],
             trace := [OsStat ''/log/app'' (Some ErrNotExist), OsOpen ''/log/app'' None,
                       CallDeleteOld, OsWalk ''/log'' None]\<rparr>) =
     (None,
      \<lparr>closed = False, fileHandle = File ''/log/app'' True, fileName = ''/log/app'',
        maxSize = 1048576, maxCount = 2, bytesWritten = 6\<rparr>,
      worldE\<lparr>files := [(''/log/app'', ''helworld'' @ [CHR 0x0A])], script := [],
             trace := [OsStat ''/log/app'' (Some ErrNotExist), OsOpen ''/log/app'' None,
                       CallDeleteOld, OsWalk ''/log'' None,
                       OsWrite (''hello'' @ [CHR 0x0A]) 3 (Some ErrIO),
                       Println ''Failed to write log line:'' ErrIO,
                       OsWrite (''world'' @ [CHR 0x0A]) 6 None]\<rparr>) \<and>
   fileSize (worldE\<lparr>files := [(''/log/app'', ''helworld'' @ [CHR 0x0A])]\<rparr>) ''/log/app'' = Some 9 \<and>
   \<not> synced
      \<lparr>closed = False, fileHandle = File ''/log/app'' True, fileName = ''/log/app'',
        maxSize = 1048576, maxCount = 2, bytesWritten = 6\<rparr>
      (worldE\<lparr>files := [(''/log/app'', ''helworld'' @ [CHR 0x0A])]\<rparr>)"
  by (simp add: newRollingWriter_def deleteOldOrPanic_def panicOnError_def megabyte_def
        deleteOld_def walkFn_def writeLine_def fileSize_def worldE_def os_defs inst_defs
        word_sle_eq synced_def)

subsection \<open>Without short writes\<close>

text \<open>
  The count that \<open>write\<close> drops is the only way in which \<open>bytesWritten\<close> and the live file
  part: when every append to come either writes its whole line or fails having written
  nothing, \<open>bytesWritten\<close> is the size of the live file after every write, whatever else
  fails.
\<close>

lemma synced_iff:
  "synced r w \<longleftrightarrow>
     (\<forall>c. map_of (files w) (fileName r) = Some c \<longrightarrow> bytesWritten r = of_nat (length c))"
  by (simp add: synced_def split: option.splits)

lemma ownHandle_iff: "ownHandle r \<longleftrightarrow> (\<forall>p b. fileHandle r = File p b \<longrightarrow> p = fileName r)"
  by (simp add: ownHandle_def split: osFile.splits)

lemma nextFault_noShortWrite:
  assumes "nextFault w = (f, w')" and "noShortWrite w"
  shows "noShortWrite w'" and "wholeOrNothing f"
  using assms by (auto simp: nextFault_def noShortWrite_def split: list.splits)

lemma noShortWrite_emit [simp]: "noShortWrite (emit e w) = noShortWrite w"
  by (simp add: noShortWrite_def emit_def)

lemma noShortWrite_trace [simp]: "noShortWrite (w\<lparr>trace := t\<rparr>) = noShortWrite w"
  by (simp add: noShortWrite_def)

lemma noShortWrite_files [simp]: "noShortWrite (w\<lparr>files := fs\<rparr>) = noShortWrite w"
  by (simp add: noShortWrite_def)

lemma noShortWrite_ticks [simp]: "noShortWrite (w\<lparr>ticks := n\<rparr>) = noShortWrite w"
  by (simp add: noShortWrite_def)

lemma osStat_noShortWrite: "osStat p w = (res, w') \<Longrightarrow> noShortWrite w \<Longrightarrow> noShortWrite w'"
  by (auto simp: osStat_def split: prod.splits option.splits dest: nextFault_noShortWrite)

lemma openFile_noShortWrite: "openFile p w = (f, err, w') \<Longrightarrow> noShortWrite w \<Longrightarrow> noShortWrite w'"
  by (auto simp: openFile_def split: prod.splits option.splits dest: nextFault_noShortWrite)

lemma osClose_noShortWrite: "osClose f w = (err, f', w') \<Longrightarrow> noShortWrite w \<Longrightarrow> noShortWrite w'"
  by (auto simp: osClose_def split: prod.splits option.splits osFile.splits bool.splits
           dest: nextFault_noShortWrite)

lemma osRename_noShortWrite: "osRename a b w = (err, w') \<Longrightarrow> noShortWrite w \<Longrightarrow> noShortWrite w'"
  by (auto simp: osRename_def split: prod.splits option.splits dest: nextFault_noShortWrite)

lemma osRemove_noShortWrite: "osRemove p w = (err, w') \<Longrightarrow> noShortWrite w \<Longrightarrow> noShortWrite w'"
  by (auto simp: osRemove_def split: prod.splits option.splits dest: nextFault_noShortWrite)

lemma osWalk_noShortWrite: "osWalk d w = (res, w') \<Longrightarrow> noShortWrite w \<Longrightarrow> noShortWrite w'"
  by (auto simp: osWalk_def split: prod.splits option.splits dest: nextFault_noShortWrite)

lemma osWriteString_noShortWrite:
  assumes "osWriteString f s w = (n, err, w')" and "noShortWrite w"
  shows "noShortWrite w'" and "err \<noteq> None \<Longrightarrow> files w' = files w"
  using assms
  by (auto simp: osWriteString_def emit_def
           split: prod.splits option.splits osFile.splits bool.splits fault.splits
           dest: nextFault_noShortWrite nextFault_fields)

lemma osClose_handle:
  "osClose f w = (err, f', w') \<Longrightarrow>
     (case f' of NilFile \<Rightarrow> f = NilFile | File p b \<Rightarrow> \<exists>b0. f = File p b0)"
  by (auto simp: osClose_def split: prod.splits option.splits osFile.splits bool.splits)

lemma map_of_appendTo:
  "map_of (appendTo p s fs) q =
     (if q = p then map_option (\<lambda>c. c @ s) (map_of fs q) else map_of fs q)"
  by (induction fs) (auto simp: appendTo_def)

lemma rotate_noShortWrite:
  assumes run: "rotate r w = (err, r', w')" and ns: "noShortWrite w"
  shows "noShortWrite w'"
  using run
proof (cases rule: rotate_cases)
  case (close_failed e f w1)
  with osClose_noShortWrite [OF close_failed(1)] ns show ?thesis by simp
next
  case (rename_failed e f w1 w3)
  have "noShortWrite w1"
    using osClose_noShortWrite [OF rename_failed(1)] ns by simp
  then show ?thesis
    using osRename_noShortWrite [OF rename_failed(2)] rename_failed(5) by simp
next
  case (renamed f w1 w3 f' w4)
  have "noShortWrite w1"
    using osClose_noShortWrite [OF renamed(1)] ns by simp
  then have "noShortWrite w3"
    using osRename_noShortWrite [OF renamed(2)] by simp
  then show ?thesis
    using openFile_noShortWrite [OF renamed(3)] renamed(5) by simp
qed

lemma rotate_keeps_synced:
  assumes run: "rotate r w = (err, r', w')"
    and inv: "synced r w" "ownHandle r"
  shows "synced r' w' \<and> ownHandle r'"
  using run
proof (cases rule: rotate_cases)
  case (close_failed e f w1)
  note cr = osClose_result [OF close_failed(1)]
  have "synced r' w'"
    using inv(1) close_failed(3,4) cr(2) by (simp add: synced_iff emit_def)
  moreover have "ownHandle r'"
    using inv(2) close_failed(3) osClose_handle [OF close_failed(1)]
    by (auto simp: ownHandle_iff split: osFile.splits)
  ultimately show ?thesis by blast
next
  case (rename_failed e f w1 w3)
  note cr = osClose_result [OF rename_failed(1)]
  note rr = osRename_result [OF rename_failed(2)]
  have "synced r' w'"
    using inv(1) rename_failed(4,5) cr(2) rr(2) by (simp add: synced_iff emit_def)
  moreover have "ownHandle r'"
    using inv(2) rename_failed(4) osClose_handle [OF rename_failed(1)]
    by (auto simp: ownHandle_iff split: osFile.splits)
  ultimately show ?thesis by blast
next
  case (renamed f w1 w3 f' w4)
  note rr = osRename_result [OF renamed(2)]
  note orr = openFile_result [OF renamed(3)]
  let ?a = "fileName r @ ''.'' @ clock w1 (ticks w1)"
  from rr(3) obtain c where
    f3: "files w3 = unlink ?a (unlink (fileName r) (files (w1\<lparr>ticks := Suc (ticks w1)\<rparr>))) @ [(?a, c)]"
    by auto
  have absent: "map_of (files w3) (fileName r) = None"
    unfolding f3 by (simp add: map_of_unlink)
  have "map_of (files w4) (fileName r) = (if err = None then Some [] else None)"
    using orr(2,3) absent by (cases err) (auto simp: map_add_def)
  then have "synced r' w'"
    using renamed(4,5) by (simp add: synced_iff)
  moreover have "ownHandle r'"
    using renamed(4) orr(2,3) by (cases err) (auto simp: ownHandle_iff)
  ultimately show ?thesis by blast
qed

lemma deleteLoop_noShortWrite:
  "deleteLoop m ps w = (res, w') \<Longrightarrow> noShortWrite w \<Longrightarrow> noShortWrite w'"
proof (induction ps arbitrary: w)
  case Nil
  then show ?case by (auto split: if_splits)
next
  case (Cons p ps)
  then show ?case
    by (auto split: if_splits prod.splits option.splits dest: osRemove_noShortWrite)
qed

lemma deleteOld_keeps_synced:
  assumes run: "deleteOld env r w = (res, w')"
  shows "noShortWrite w \<Longrightarrow> noShortWrite w'" and "synced r w \<Longrightarrow> synced r w'"
proof -
  show "noShortWrite w'" if "noShortWrite w"
    using run that
    by (auto simp: deleteOld_def split: prod.splits sum.splits
             dest!: osWalk_noShortWrite deleteLoop_noShortWrite)
  show "synced r w'" if "synced r w"
    using deleteOld_shape [OF run] that
    by (elim disjE exE conjE) (auto simp: synced_iff map_of_filter_fst)
qed

lemma failed_append_keeps_synced:
  assumes inv: "synced r w" "ownHandle r" "noShortWrite w"
  and ap: "osWriteString (fileHandle r) s w = (n, Some e, w1)"
  shows "synced r (println ''Failed to write log line:'' e w1) \<and> noShortWrite (println ''Failed to write log line:'' e w1)"
  using inv osWriteString_noShortWrite [OF ap inv(3)]
  by (simp add: synced_iff println_def emit_def)

lemma append_keeps_synced:
  assumes inv: "synced r w" "ownHandle r" "noShortWrite w"
  and ap: "osWriteString (fileHandle r) s w = (n, None, w1)"
  shows "synced (r\<lparr>bytesWritten := bytesWritten r + of_nat n\<rparr>) w1"
proof -
  from osWriteString_result(4) [OF ap] obtain p where
      n: "n = length s" and h: "fileHandle r = File p True"
      and f1: "files w1 = appendTo p s (files w)"
      by auto
  from h inv(2) have p: "p = fileName r" by (auto simp: ownHandle_iff)
  show ?thesis
    using inv(1) unfolding synced_iff f1 p n map_of_appendTo by auto
qed

lemma writeLine_unfold_rotating:
  assumes "\<not> closed r"
    and "osWriteString (fileHandle r) (formatStandard env logger level line @ [CHR 0x0A]) w
           = (n, None, w1)"
    and "maxSize r \<le>s bytesWritten r + of_nat n"
    and "rotate (r\<lparr>bytesWritten := bytesWritten r + of_nat n\<rparr>) w1 = (rerr, r2, w2)"
    and "deleteOld env r2
           (case rerr of Some err \<Rightarrow> println ''Failed to rotate log file:'' err w2 | None \<Rightarrow> w2)
           = (dres, w3)"
  shows "writeLine env r logger level line w =
           (case dres of
              Inl p \<Rightarrow> (Some p, r2, w3)
            | Inr (Some err) \<Rightarrow> (None, r2, println ''Failed to delete old log file:'' err w3)
            | Inr None \<Rightarrow> (None, r2, w3))"
  using assms by (simp add: writeLine_def Let_def split: sum.splits option.splits)

lemma writeLine_keeps_synced:
  assumes run: "writeLine env r logger level line w = (pn, r', w')"
    and inv: "synced r w" "ownHandle r" "noShortWrite w"
  shows "synced r' w' \<and> ownHandle r' \<and> noShortWrite w'"
proof (cases "closed r")
  case True
  with run inv show ?thesis by (simp add: writeLine_def)
next
  case False
  let ?s = "formatStandard env logger level line @ [CHR 0x0A]"
  obtain n werr w1 where ap: "osWriteString (fileHandle r) ?s w = (n, werr, w1)"
    by (metis prod_cases3)
  show ?thesis
  proof (cases werr)
    case (Some e)
    with run False ap have "r' = r" "w' = println ''Failed to write log line:'' e w1"
      by (simp_all add: writeLine_def)
    with failed_append_keeps_synced [OF inv ap [unfolded Some]] inv(2) show ?thesis by simp
  next
    case None
    let ?r1 = "r\<lparr>bytesWritten := bytesWritten r + of_nat n\<rparr>"
    note ap' = ap [unfolded None]
    have s1: "synced ?r1 w1" by (rule append_keeps_synced [OF inv ap'])
    have o1: "ownHandle ?r1" using inv(2) by (simp add: ownHandle_iff)
    have n1: "noShortWrite w1" by (rule osWriteString_noShortWrite(1) [OF ap inv(3)])
    show ?thesis
    proof (cases "maxSize r \<le>s bytesWritten r + of_nat n")
      case below: False
      with run False ap' have "r' = ?r1" "w' = w1"
        by (simp_all add: writeLine_def Let_def)
      with s1 o1 n1 show ?thesis by simp
    next
      case True
      obtain rerr r2 w2 where rot: "rotate ?r1 w1 = (rerr, r2, w2)"
        by (metis prod_cases3)
      from rotate_keeps_synced [OF rot s1 o1] rotate_noShortWrite [OF rot n1]
      have i2: "synced r2 w2" "ownHandle r2" "noShortWrite w2" by simp_all
      let ?w2 = "case rerr of Some err \<Rightarrow> println ''Failed to rotate log file:'' err w2 | None \<Rightarrow> w2"
      have i2': "synced r2 ?w2" "noShortWrite ?w2"
        using i2 by (auto simp: synced_iff println_def emit_def split: option.splits)
      obtain dres w3 where del: "deleteOld env r2 ?w2 = (dres, w3)"
        by (metis prod.exhaust)
      have i3: "synced r2 w3" "noShortWrite w3"
        using deleteOld_keeps_synced [OF del] i2' by simp_all
      from writeLine_unfold_rotating [OF False ap' True rot del] run
      have "r' = r2" and "files w' = files w3" and "noShortWrite w' = noShortWrite w3"
        by (auto simp: println_def emit_def split: sum.splits option.splits)
      with i3 i2(2) show ?thesis by (simp add: synced_iff)
    qed
  qed
qed

lemma writeAll_keeps_synced:
  "writeAll env r calls w = (pn, r', w') \<Longrightarrow> synced r w \<Longrightarrow> ownHandle r \<Longrightarrow> noShortWrite w \<Longrightarrow>
     synced r' w' \<and> ownHandle r' \<and> noShortWrite w'"
proof (induction calls arbitrary: r w)
  case Nil
  then show ?case by simp
next
  case (Cons c calls)
  obtain logger level line where c: "c = (logger, level, line)" by (metis prod_cases3)
  obtain p1 r1 w1 where s: "writeLine env r logger level line w = (p1, r1, w1)"
    by (metis prod_cases3)
  from writeLine_keeps_synced [OF s Cons.prems(2,3,4)]
  have i: "synced r1 w1" "ownHandle r1" "noShortWrite w1" by simp_all
  show ?case
  proof (cases p1)
    case None
    with Cons.prems(1) c s have "writeAll env r1 calls w1 = (pn, r', w')" by simp
    from Cons.IH [OF this i] show ?thesis .
  next
    case (Some pv)
    with Cons.prems(1) c s i show ?thesis by simp
  qed
qed

section \<open>Construction\<close>

lemma deleteOldOrPanic_events:
  assumes "deleteOldOrPanic env wr w = (res, w')"
  shows "\<exists>devs. trace w' = trace w @ CallDeleteOld # devs \<and> list_all fromScan devs \<and>
           (\<forall>e. (\<exists>d. OsWalk d (Some e) \<in> set devs) \<or> (\<exists>q. OsRemove q (Some e) \<in> set devs)
                 \<longrightarrow> res = Inl (PanicError e))"
proof -
  obtain dres w1 where del: "deleteOld env wr w = (dres, w1)"
    by (metis prod.exhaust)
  from deleteOld_events [OF del] obtain devs where
    t: "trace w1 = trace w @ CallDeleteOld # devs" and q: "list_all fromScan devs"
    and f: "\<forall>e. (\<exists>d. OsWalk d (Some e) \<in> set devs) \<or> (\<exists>q. OsRemove q (Some e) \<in> set devs)
                 \<longrightarrow> dres = Inr (Some e)"
    by blast
  have w': "w' = w1"
    using assms del
    by (auto simp: deleteOldOrPanic_def panicOnError_def split: sum.splits option.splits)
  have "\<And>e. dres = Inr (Some e) \<Longrightarrow> res = Inl (PanicError e)"
    using assms del
    by (auto simp: deleteOldOrPanic_def panicOnError_def split: sum.splits option.splits)
  with t q f w' show ?thesis by blast
qed

lemma newRollingWriter_trace:
  assumes run: "newRollingWriter env name maxSz maxCnt w = (res, w')"
  shows "\<exists>se oe rot scan.
           since w w' = OsStat (toAbsolutePath env name) se # oe @ rot @ scan \<and>
           (oe = [] \<or> (\<exists>e. oe = [OsOpen (toAbsolutePath env name) e])) \<and>
           (rot = [] \<or> (\<exists>revs. rot = CallRotate # revs \<and> list_all fromRotate revs)) \<and>
           (scan = [] \<or>
              (\<exists>devs. scan = CallDeleteOld # devs \<and> list_all fromScan devs \<and>
                 (\<forall>e. (\<exists>d. OsWalk d (Some e) \<in> set devs) \<or> (\<exists>q. OsRemove q (Some e) \<in> set devs)
                       \<longrightarrow> res = Inl (PanicError e)))) \<and>
           ((\<exists>x. res = Inr x) \<longrightarrow> scan \<noteq> []) \<and>
           (rot \<noteq> [] \<longleftrightarrow>
              (\<exists>sz w1 f w2. osStat (toAbsolutePath env name) w = (Inr sz, w1) \<and>
                  openFile (toAbsolutePath env name) w1 = (f, None, w2) \<and>
                  maxSz * megabyte \<le>s sz))"
proof -
  let ?p = "toAbsolutePath env name"
  let ?w0 = "\<lparr>closed = False, fileHandle = NilFile, fileName = ?p,
              maxSize = maxSz * megabyte, maxCount = maxCnt, bytesWritten = 0\<rparr>"
  obtain st w1 where st: "osStat ?p w = (st, w1)" by (metis prod.exhaust)
  obtain f oerr w2 where op: "openFile ?p w1 = (f, oerr, w2)" by (metis prod_cases3)
  note sr = osStat_result [OF st]
  note orr = openFile_result [OF op]
  let ?goal = "\<lambda>se oe rot scan.
           since w w' = OsStat ?p se # oe @ rot @ scan \<and>
           (oe = [] \<or> (\<exists>e. oe = [OsOpen ?p e])) \<and>
           (rot = [] \<or> (\<exists>revs. rot = CallRotate # revs \<and> list_all fromRotate revs)) \<and>
           (scan = [] \<or>
              (\<exists>devs. scan = CallDeleteOld # devs \<and> list_all fromScan devs \<and>
                 (\<forall>e. (\<exists>d. OsWalk d (Some e) \<in> set devs) \<or> (\<exists>q. OsRemove q (Some e) \<in> set devs)
                       \<longrightarrow> res = Inl (PanicError e)))) \<and>
           ((\<exists>x. res = Inr x) \<longrightarrow> scan \<noteq> []) \<and>
           (rot \<noteq> [] \<longleftrightarrow>
              (\<exists>sz w1 f w2. osStat ?p w = (Inr sz, w1) \<and> openFile ?p w1 = (f, None, w2) \<and>
                  maxSz * megabyte \<le>s sz))"
  have scanned: "?goal se [OsOpen ?p None] [] (CallDeleteOld # devs)"
    if "deleteOldOrPanic env wr w2 = (res, w')" 
      and "trace w2 = trace w @ [OsStat ?p se, OsOpen ?p None]"
      and "\<not> (\<exists>sz w1 f w2. osStat ?p w = (Inr sz, w1) \<and> openFile ?p w1 = (f, None, w2) \<and>
                  maxSz * megabyte \<le>s sz)"
      and "trace w' = trace w2 @ CallDeleteOld # devs" and "list_all fromScan devs"
      and "\<forall>e. (\<exists>d. OsWalk d (Some e) \<in> set devs) \<or> (\<exists>q. OsRemove q (Some e) \<in> set devs)
                 \<longrightarrow> res = Inl (PanicError e)"
    for wr se devs
  proof -
    have "since w w' = OsStat ?p se # [OsOpen ?p None] @ [] @ CallDeleteOld # devs"
      using that by (intro since_append) simp
    with that show ?thesis by simp
  qed
  show ?thesis
  proof (cases st)
    case (Inl e)
    note t1 = sr(4) [OF Inl]
    show ?thesis
    proof (cases "e = ErrNotExist")
      case False
      with run st Inl have "res = Inl (PanicError e)" "w' = w1"
        by (simp_all add: newRollingWriter_def)
      with t1 st Inl have "?goal (Some e) [] [] []"
        by (simp add: since_append)
      then show ?thesis by blast
    next
      case True
      show ?thesis
      proof (cases oerr)
        case (Some oe)
        with run st Inl True op have "res = Inl (PanicError oe)" "w' = w2"
          by (simp_all add: newRollingWriter_def panicOnError_def)
        moreover have "since w w' = OsStat ?p (Some e) # [OsOpen ?p (Some oe)] @ [] @ []"
          using t1 orr(1) Some \<open>w' = w2\<close> by (intro since_append) simp
        ultimately have "?goal (Some e) [OsOpen ?p (Some oe)] [] []"
          using st Inl by simp
        then show ?thesis by blast
      next
        case None
        with run st Inl True op have
          d: "deleteOldOrPanic env (?w0\<lparr>fileHandle := f\<rparr>) w2 = (res, w')"
          by (simp add: newRollingWriter_def panicOnError_def)
        from deleteOldOrPanic_events [OF d] obtain devs where
          dv: "trace w' = trace w2 @ CallDeleteOld # devs" "list_all fromScan devs"
          "\<forall>e. (\<exists>d. OsWalk d (Some e) \<in> set devs) \<or> (\<exists>q. OsRemove q (Some e) \<in> set devs)
                 \<longrightarrow> res = Inl (PanicError e)"
          by blast
        have "trace w2 = trace w @ [OsStat ?p (Some e), OsOpen ?p None]"
          using t1 orr(1) None by simp
        moreover have "\<not> (\<exists>sz w1 f w2. osStat ?p w = (Inr sz, w1) \<and>
                  openFile ?p w1 = (f, None, w2) \<and> maxSz * megabyte \<le>s sz)"
          using st Inl by simp
        ultimately have "?goal (Some e) [OsOpen ?p None] [] (CallDeleteOld # devs)"
          using d dv by (intro scanned)
        then show ?thesis by blast
      qed
    qed
  next
    case (Inr sz)
    from sr(5) [OF Inr] have t1: "trace w1 = trace w @ [OsStat ?p None]" by simp
    show ?thesis
    proof (cases oerr)
      case (Some oe)
      with run st Inr op have "res = Inl (PanicError oe)" "w' = w2"
        by (simp_all add: newRollingWriter_def panicOnError_def)
      moreover have "since w w' = OsStat ?p None # [OsOpen ?p (Some oe)] @ [] @ []"
        using t1 orr(1) Some \<open>w' = w2\<close> by (intro since_append) simp
      ultimately have "?goal None [OsOpen ?p (Some oe)] [] []"
        using st Inr op Some by simp
      then show ?thesis by blast
    next
      case None
      let ?w1 = "?w0\<lparr>fileHandle := f, bytesWritten := sz\<rparr>"
      have t2: "trace w2 = trace w @ [OsStat ?p None, OsOpen ?p None]"
        using t1 orr(1) None by simp
      show ?thesis
      proof (cases "maxSz * megabyte \<le>s sz")
        case False
        with run st Inr op None have d: "deleteOldOrPanic env ?w1 w2 = (res, w')"
          by (simp add: newRollingWriter_def panicOnError_def Let_def)
        from deleteOldOrPanic_events [OF d] obtain devs where
          dv: "trace w' = trace w2 @ CallDeleteOld # devs" "list_all fromScan devs"
          "\<forall>e. (\<exists>d. OsWalk d (Some e) \<in> set devs) \<or> (\<exists>q. OsRemove q (Some e) \<in> set devs)
                 \<longrightarrow> res = Inl (PanicError e)"
          by blast
        have "\<not> (\<exists>sz w1 f w2. osStat ?p w = (Inr sz, w1) \<and>
                  openFile ?p w1 = (f, None, w2) \<and> maxSz * megabyte \<le>s sz)"
          using st Inr False by simp
        with t2 d dv have "?goal None [OsOpen ?p None] [] (CallDeleteOld # devs)"
          by (intro scanned)
        then show ?thesis by blast
      next
        case True
        obtain rerr wr2 w3 where rot: "rotate ?w1 w2 = (rerr, wr2, w3)"
          by (metis prod_cases3)
        from rotate_events [OF rot] obtain revs where
          t3: "trace w3 = trace w2 @ CallRotate # revs" and q3: "list_all fromRotate revs"
          by blast
        have cond: "\<exists>sz w1 f w2. osStat ?p w = (Inr sz, w1) \<and>
                  openFile ?p w1 = (f, None, w2) \<and> maxSz * megabyte \<le>s sz"
          using st Inr op None True by blast
        show ?thesis
        proof (cases rerr)
          case (Some re)
          with run st Inr op None True rot have "res = Inl (PanicError re)" "w' = w3"
            by (simp_all add: newRollingWriter_def panicOnError_def Let_def)
          moreover have "since w w' = OsStat ?p None # [OsOpen ?p None] @ (CallRotate # revs) @ []"
            using t2 t3 \<open>w' = w3\<close> by (intro since_append) simp
          ultimately have "?goal None [OsOpen ?p None] (CallRotate # revs) []"
            using cond q3 by simp
          then show ?thesis by blast
        next
          case rNone: None
          with run st Inr op None True rot have d: "deleteOldOrPanic env wr2 w3 = (res, w')"
            by (simp add: newRollingWriter_def panicOnError_def Let_def)
          from deleteOldOrPanic_events [OF d] obtain devs where
            dv: "trace w' = trace w3 @ CallDeleteOld # devs" "list_all fromScan devs"
            "\<forall>e. (\<exists>d. OsWalk d (Some e) \<in> set devs) \<or> (\<exists>q. OsRemove q (Some e) \<in> set devs)
                 \<longrightarrow> res = Inl (PanicError e)"
            by blast
          have "since w w' = OsStat ?p None # [OsOpen ?p None] @ (CallRotate # revs)
                  @ CallDeleteOld # devs"
            using t2 t3 dv(1) by (intro since_append) simp
          with cond q3 dv have "?goal None [OsOpen ?p None] (CallRotate # revs) (CallDeleteOld # devs)"
            by simp
          then show ?thesis by blast
        qed
      qed
    qed
  qed
qed

text \<open>
  C4. No line is written during construction. When the live file exists (the stat returns
  its size) and has been opened: if the size has reached the threshold, exactly one rotation
  is invoked during construction; if the size is below the threshold, none is. None is
  either when no file exists. Whenever the constructor returns a writer, the retention
  scanner has run exactly once.
\<close>

theorem newRollingWriter_rotation_and_scan:
  assumes run: "newRollingWriter env name maxSz maxCnt w = (res, w')"
  shows "(\<forall>s n e. OsWrite s n e \<notin> set (since w w'))
       \<and> (\<forall>sz w1 f w2.
             osStat (toAbsolutePath env name) w = (Inr sz, w1) \<and>
             openFile (toAbsolutePath env name) w1 = (f, None, w2) \<and>
             maxSz * megabyte \<le>s sz
             \<longrightarrow> count_list (since w w') CallRotate = 1)
       \<and> (\<forall>sz w1.
             osStat (toAbsolutePath env name) w = (Inr sz, w1) \<and> \<not> maxSz * megabyte \<le>s sz
             \<longrightarrow> count_list (since w w') CallRotate = 0)
       \<and> (\<forall>w1.
             osStat (toAbsolutePath env name) w = (Inl ErrNotExist, w1)
             \<longrightarrow> count_list (since w w') CallRotate = 0)
       \<and> (\<forall>writer. res = Inr writer \<longrightarrow> count_list (since w w') CallDeleteOld = 1)"
proof -
  let ?p = "toAbsolutePath env name"
  from newRollingWriter_trace [OF run] obtain se oe rot scan where
    sn: "since w w' = OsStat ?p se # oe @ rot @ scan"
    and oe: "oe = [] \<or> (\<exists>e. oe = [OsOpen ?p e])"
    and rot: "rot = [] \<or> (\<exists>revs. rot = CallRotate # revs \<and> list_all fromRotate revs)"
    and scan: "scan = [] \<or> (\<exists>devs. scan = CallDeleteOld # devs \<and> list_all fromScan devs)"
    and ok: "(\<exists>x. res = Inr x) \<longrightarrow> scan \<noteq> []"
    and cond: "rot \<noteq> [] \<longleftrightarrow>
              (\<exists>sz w1 f w2. osStat ?p w = (Inr sz, w1) \<and> openFile ?p w1 = (f, None, w2) \<and>
                  maxSz * megabyte \<le>s sz)"
    by blast
  have oe_r: "count_list oe CallRotate = 0" and oe_d: "count_list oe CallDeleteOld = 0"
    and oe_w: "\<And>s n e. OsWrite s n e \<notin> set oe"
    using oe by auto
  have rot_r: "count_list rot CallRotate = (if rot = [] then 0 else 1)"
    and rot_d: "count_list rot CallDeleteOld = 0"
    and rot_w: "\<And>s n e. OsWrite s n e \<notin> set rot"
    using rot by (auto simp: list_all_count0 fromRotate_others)
  have scan_r: "count_list scan CallRotate = 0"
    and scan_d: "count_list scan CallDeleteOld = (if scan = [] then 0 else 1)"
    and scan_w: "\<And>s n e. OsWrite s n e \<notin> set scan"
    using scan by (auto simp: list_all_count0 fromScan_others)
  have nr: "count_list (since w w') CallRotate = (if rot = [] then 0 else 1)"
    unfolding sn using oe_r rot_r scan_r by simp
  have nd: "count_list (since w w') CallDeleteOld = (if scan = [] then 0 else 1)"
    unfolding sn using oe_d rot_d scan_d by simp
  have 1: "\<forall>s n e. OsWrite s n e \<notin> set (since w w')"
    unfolding sn using oe_w rot_w scan_w by simp
  have 2: "\<forall>sz w1 f w2. osStat ?p w = (Inr sz, w1) \<and> openFile ?p w1 = (f, None, w2) \<and>
             maxSz * megabyte \<le>s sz \<longrightarrow> count_list (since w w') CallRotate = 1"
    using nr cond by auto
  have 3: "\<forall>sz w1. osStat ?p w = (Inr sz, w1) \<and> \<not> maxSz * megabyte \<le>s sz
             \<longrightarrow> count_list (since w w') CallRotate = 0"
    using nr cond by auto
  have 4: "\<forall>w1. osStat ?p w = (Inl ErrNotExist, w1) \<longrightarrow> count_list (since w w') CallRotate = 0"
    using nr cond by auto
  have 5: "\<forall>writer. res = Inr writer \<longrightarrow> count_list (since w w') CallDeleteOld = 1"
    using nd ok by auto
  from 1 2 3 4 5 show ?thesis by blast
qed

theorem newRollingWriter_rotation_and_scan_witness:
  "newRollingWriter env0 ''/log/app'' 1 2 worldD =
     (Inr \<lparr>closed = False, fileHandle = File ''/log/app'' True, fileName = ''/log/app'',
           maxSize = 1048576, maxCount = 2, bytesWritten = 0\<rparr>,
      worldD\<lparr>files := [(''/log/app.2006-01-02T15:04:05Z'', replicate 1048576 (CHR ''x'')),
                       (''/log/app'', [])],
             ticks := 1,
             trace := [OsStat ''/log/app'' None, OsOpen ''/log/app'' None, CallRotate,
                       OsClose None,
                       OsRename ''/log/app'' ''/log/app.2006-01-02T15:04:05Z'' None,
                       OsOpen ''/log/app'' None, CallDeleteOld, OsWalk ''/log'' None]\<rparr>) \<and>
   osStat (toAbsolutePath env0 ''/log/app'') worldD
     = (Inr 1048576, worldD\<lparr>trace := [OsStat ''/log/app'' None]\<rparr>) \<and>
   openFile (toAbsolutePath env0 ''/log/app'') (worldD\<lparr>trace := [OsStat ''/log/app'' None]\<rparr>)
     = (File ''/log/app'' True, None,
        worldD\<lparr>trace := [OsStat ''/log/app'' None, OsOpen ''/log/app'' None]\<rparr>) \<and>
   1 * megabyte \<le>s (1048576 :: 64 word) \<and>
   count_list (since worldD (snd (newRollingWriter env0 ''/log/app'' 1 2 worldD))) CallRotate = 1 \<and>
   count_list (since worldD (snd (newRollingWriter env0 ''/log/app'' 1 2 worldD))) CallDeleteOld = 1"
proof -
  let ?X = "newRollingWriter env0 ''/log/app'' 1 2 worldD"
  have run: "?X =
     (Inr \<lparr>closed = False, fileHandle = File ''/log/app'' True, fileName = ''/log/app'',
           maxSize = 1048576, maxCount = 2, bytesWritten = 0\<rparr>,
      worldD\<lparr>files := [(''/log/app.2006-01-02T15:04:05Z'', replicate 1048576 (CHR ''x'')),
                       (''/log/app'', [])],
             ticks := 1,
             trace := [OsStat ''/log/app'' None, OsOpen ''/log/app'' None, CallRotate,
                       OsClose None,
                       OsRename ''/log/app'' ''/log/app.2006-01-02T15:04:05Z'' None,
                       OsOpen ''/log/app'' None, CallDeleteOld, OsWalk ''/log'' None]\<rparr>)"
    by (simp add: newRollingWriter_def deleteOldOrPanic_def panicOnError_def megabyte_def
          deleteOld_def walkFn_def rotate_def worldD_def os_defs inst_defs word_sle_eq)
  have st: "osStat (toAbsolutePath env0 ''/log/app'') worldD
     = (Inr 1048576, worldD\<lparr>trace := [OsStat ''/log/app'' None]\<rparr>)"
    by (simp add: worldD_def os_defs inst_defs)
  have op: "openFile (toAbsolutePath env0 ''/log/app'') (worldD\<lparr>trace := [OsStat ''/log/app'' None]\<rparr>)
     = (File ''/log/app'' True, None,
        worldD\<lparr>trace := [OsStat ''/log/app'' None, OsOpen ''/log/app'' None]\<rparr>)"
    by (simp add: worldD_def os_defs inst_defs)
  have thr: "1 * megabyte \<le>s (1048576 :: 64 word)"
    by (simp add: megabyte_def)
  have pair: "?X = (fst ?X, snd ?X)" by simp
  note th = newRollingWriter_rotation_and_scan [OF pair]
  from th st op thr have r: "count_list (since worldD (snd ?X)) CallRotate = 1"
    by blast
  from th run have d: "count_list (since worldD (snd ?X)) CallDeleteOld = 1"
    by (metis fst_conv)
  from run st op thr r d show ?thesis by blast
qed

text \<open>
  C9. During construction a failure of the retention scan, of its walk or of one of its
  removals, is fatal, whether the live file existed or not: the constructor panics with that
  error and returns no writer.
\<close>

theorem newRollingWriter_panics_on_scan_error:
  assumes run: "newRollingWriter env name maxSz maxCnt w = (res, w')"
    and failed: "(\<exists>d. OsWalk d (Some e) \<in> set (since w w')) \<or>
                 (\<exists>q. OsRemove q (Some e) \<in> set (since w w'))"
  shows "res = Inl (PanicError e) \<and> (\<forall>writer. res \<noteq> Inr writer)"
proof -
  let ?p = "toAbsolutePath env name"
  from newRollingWriter_trace [OF run] obtain se oe rot scan where
    sn: "since w w' = OsStat ?p se # oe @ rot @ scan"
    and oe: "oe = [] \<or> (\<exists>e. oe = [OsOpen ?p e])"
    and rot: "rot = [] \<or> (\<exists>revs. rot = CallRotate # revs \<and> list_all fromRotate revs)"
    and scan: "scan = [] \<or>
              (\<exists>devs. scan = CallDeleteOld # devs \<and> list_all fromScan devs \<and>
                 (\<forall>e. (\<exists>d. OsWalk d (Some e) \<in> set devs) \<or> (\<exists>q. OsRemove q (Some e) \<in> set devs)
                       \<longrightarrow> res = Inl (PanicError e)))"
    by blast
  have oe_n: "\<And>d x. OsWalk d x \<notin> set oe" "\<And>q x. OsRemove q x \<notin> set oe"
    using oe by auto
  have rot_n: "\<And>d x. OsWalk d x \<notin> set rot" "\<And>q x. OsRemove q x \<notin> set rot"
    using rot by (auto simp: fromRotate_others)
  from failed have "(\<exists>d. OsWalk d (Some e) \<in> set scan) \<or> (\<exists>q. OsRemove q (Some e) \<in> set scan)"
    unfolding sn using oe_n rot_n by auto
  with scan have "res = Inl (PanicError e)" by (elim disjE exE conjE) (simp_all, blast+)
  then show ?thesis by simp
qed

theorem newRollingWriter_panics_on_scan_error_witness:
  "newRollingWriter env0 ''/log/app'' 1 0 worldF =
     (Inl (PanicError ErrIO),
      worldF\<lparr>files := [(''/log/app.2006-01-02T15:04:05Z'', ''old''), (''/log/app'', [])],
             script := [],
             trace := [OsStat ''/log/app'' (Some ErrNotExist), OsOpen ''/log/app'' None,
                       CallDeleteOld, OsWalk ''/log'' None,
                       OsRemove ''/log/app.2006-01-02T15:04:05Z'' (Some ErrIO)]\<rparr>) \<and>
   newRollingWriter env0 ''/log/app'' 1 0 (worldC\<lparr>script := [None, None, None, Some Fault]\<rparr>) =
     (Inl (PanicError ErrIO),
      worldC\<lparr>script := [],
             trace := [OsStat ''/log/app'' None, OsOpen ''/log/app'' None, CallDeleteOld,
                       OsWalk ''/log'' None,
                       OsRemove ''/log/app.2006-01-02T15:04:05Z'' (Some ErrIO)]\<rparr>)"
proof -
  let ?wy = "worldC\<lparr>script := [None, None, None, Some Fault]\<rparr>"
  let ?X = "newRollingWriter env0 ''/log/app'' 1 0 worldF"
  let ?Y = "newRollingWriter env0 ''/log/app'' 1 0 ?wy"
  have wx: "snd ?X =
      worldF\<lparr>files := [(''/log/app.2006-01-02T15:04:05Z'', ''old''), (''/log/app'', [])],
             script := [],
             trace := [OsStat ''/log/app'' (Some ErrNotExist), OsOpen ''/log/app'' None,
                       CallDeleteOld, OsWalk ''/log'' None,
                       OsRemove ''/log/app.2006-01-02T15:04:05Z'' (Some ErrIO)]\<rparr>"
    by (simp add: newRollingWriter_def deleteOldOrPanic_def panicOnError_def megabyte_def
          deleteOld_def walkFn_def worldF_def os_defs inst_defs word_sle_eq)
  have wy: "snd ?Y = worldC\<lparr>script := [],
             trace := [OsStat ''/log/app'' None, OsOpen ''/log/app'' None, CallDeleteOld,
                       OsWalk ''/log'' None,
                       OsRemove ''/log/app.2006-01-02T15:04:05Z'' (Some ErrIO)]\<rparr>"
    by (simp add: newRollingWriter_def deleteOldOrPanic_def panicOnError_def megabyte_def
          deleteOld_def walkFn_def worldC_def os_defs inst_defs word_sle_eq)
  have fx: "(\<exists>d. OsWalk d (Some ErrIO) \<in> set (since worldF (snd ?X))) \<or>
            (\<exists>q. OsRemove q (Some ErrIO) \<in> set (since worldF (snd ?X)))"
    unfolding wx by (simp add: since_def worldF_def)
  have fy: "(\<exists>d. OsWalk d (Some ErrIO) \<in> set (since ?wy (snd ?Y))) \<or>
            (\<exists>q. OsRemove q (Some ErrIO) \<in> set (since ?wy (snd ?Y)))"
    unfolding wy by (simp add: since_def worldC_def)
  have px: "?X = (fst ?X, snd ?X)" and py: "?Y = (fst ?Y, snd ?Y)" by simp_all
  from newRollingWriter_panics_on_scan_error [OF px fx]
  have rx: "fst ?X = Inl (PanicError ErrIO)" by blast
  from newRollingWriter_panics_on_scan_error [OF py fy]
  have ry: "fst ?Y = Inl (PanicError ErrIO)" by blast
  from rx wx ry wy show ?thesis by (metis prod.collapse)
qed

subsection \<open>The writer that the constructor returns\<close>

text \<open>
  The constructor returns a writer whose \<open>bytesWritten\<close> is the size of the live file, and
  the writes that follow keep it so, short writes apart.
\<close>

lemma deleteOldOrPanic_returns:
  assumes "deleteOldOrPanic env wr w = (Inr r, w')"
  shows "r = wr \<and> deleteOld env wr w = (Inr None, w')"
  using assms
  by (auto simp: deleteOldOrPanic_def panicOnError_def split: prod.splits sum.splits option.splits)

lemma deleteOldOrPanic_keeps_synced:
  assumes "deleteOldOrPanic env wr w = (Inr r, w')" and "synced wr w" and "ownHandle wr"
  shows "synced r w' \<and> ownHandle r \<and> (noShortWrite w \<longrightarrow> noShortWrite w')"
proof -
  from deleteOldOrPanic_returns [OF assms(1)] have r: "r = wr"
    and d: "deleteOld env wr w = (Inr None, w')"
    by simp_all
  from deleteOld_keeps_synced [OF d] assms(2,3) r show ?thesis by simp
qed

lemma newRollingWriter_synced:
  assumes run: "newRollingWriter env name maxSz maxCnt w = (Inr r, w')"
  shows "synced r w' \<and> ownHandle r \<and> (noShortWrite w \<longrightarrow> noShortWrite w')"
proof -
  let ?p = "toAbsolutePath env name"
  let ?w0 = "\<lparr>closed = False, fileHandle = NilFile, fileName = ?p,
              maxSize = maxSz * megabyte, maxCount = maxCnt, bytesWritten = 0\<rparr>"
  obtain st w1 where st: "osStat ?p w = (st, w1)" by (metis prod.exhaust)
  obtain f oerr w2 where op: "openFile ?p w1 = (f, oerr, w2)" by (metis prod_cases3)
  note sr = osStat_result [OF st]
  note orr = openFile_result [OF op]
  have n2: "noShortWrite w \<Longrightarrow> noShortWrite w2"
    using osStat_noShortWrite [OF st] openFile_noShortWrite [OF op] by simp
  have oN: "oerr = None"
    using run st op
    by (cases oerr; cases st)
      (auto simp: newRollingWriter_def panicOnError_def Let_def split: if_splits)
  have fh: "f = File ?p True" using orr(3) [OF oN] by simp
  show ?thesis
  proof (cases st)
    case (Inl e)
    with run st have e: "e = ErrNotExist"
      by (auto simp: newRollingWriter_def Let_def split: if_splits)
    with run st Inl op oN have d: "deleteOldOrPanic env (?w0\<lparr>fileHandle := f\<rparr>) w2 = (Inr r, w')"
      by (simp add: newRollingWriter_def panicOnError_def)
    have "map_of (files w1) ?p = None" using sr(6) sr(1) Inl e by simp
    then have "map_of (files w2) ?p = Some []" using orr(3) [OF oN] by (simp add: map_add_def)
    then have s: "synced (?w0\<lparr>fileHandle := f\<rparr>) w2" by (simp add: synced_iff)
    have o: "ownHandle (?w0\<lparr>fileHandle := f\<rparr>)" using fh by (simp add: ownHandle_iff)
    from deleteOldOrPanic_keeps_synced [OF d s o] n2 show ?thesis by blast
  next
    case (Inr sz)
    let ?w1 = "?w0\<lparr>fileHandle := f, bytesWritten := sz\<rparr>"
    from sr(5) [OF Inr] obtain c where c: "map_of (files w) ?p = Some c" "sz = of_nat (length c)"
      by blast
    then have "files w2 = files w" using orr(3) [OF oN] sr(1) by simp
    with c have s: "synced ?w1 w2" by (simp add: synced_iff)
    have o: "ownHandle ?w1" using fh by (simp add: ownHandle_iff)
    show ?thesis
    proof (cases "maxSz * megabyte \<le>s sz")
      case False
      with run st Inr op oN have d: "deleteOldOrPanic env ?w1 w2 = (Inr r, w')"
        by (simp add: newRollingWriter_def panicOnError_def Let_def)
      from deleteOldOrPanic_keeps_synced [OF d s o] n2 show ?thesis by blast
    next
      case True
      obtain rerr wr2 w3 where rot: "rotate ?w1 w2 = (rerr, wr2, w3)"
        by (metis prod_cases3)
      have rN: "rerr = None"
        using run st Inr op oN True rot
        by (cases rerr) (auto simp: newRollingWriter_def panicOnError_def Let_def)
      with run st Inr op oN True rot have d: "deleteOldOrPanic env wr2 w3 = (Inr r, w')"
        by (simp add: newRollingWriter_def panicOnError_def Let_def)
      have n3: "noShortWrite w \<Longrightarrow> noShortWrite w3"
        using rotate_noShortWrite [OF rot] n2 by simp
      from rotate_keeps_synced [OF rot s o] have s3: "synced wr2 w3" and o3: "ownHandle wr2"
        by simp_all
      from deleteOldOrPanic_keeps_synced [OF d s3 o3] n3 show ?thesis by blast
    qed
  qed
qed

lemma bytesWritten_tracks_whole_writes:
  assumes "newRollingWriter env name maxSz maxCnt w = (Inr r, w1)"
    and "noShortWrite w"
    and "writeAll env r calls w1 = (pn, r', w')"
  shows "synced r' w'"
proof -
  from newRollingWriter_synced [OF assms(1)] assms(2)
  have "synced r w1" "ownHandle r" "noShortWrite w1" by simp_all
  from writeAll_keeps_synced [OF assms(3) this] show ?thesis by simp
qed

end
